theory Spec2Isabelle
  imports Complex_Main "HOL-Library.Multiset" "HOL-Library.Product_Lexorder"
begin

section \<open>Data model (types/standings.ts)\<close>

text \<open>
  A JavaScript \<open>number\<close> that holds a count (wins, points, games played, a threshold
  parsed with \<open>parseInt\<close>) is modelled as an \<open>int\<close>; a quotient of two such numbers
  is modelled as the exact rational, of which the IEEE double computed by the program
  is the nearest representable value.
\<close>

record Team =
  teamId :: nat
  name :: string
  abbrev :: string
  wins :: int
  losses :: int
  otLosses :: int
  points :: int
  gamesPlayed :: int
  pointPercentage :: rat
  regulationWins :: int
  regulationPlusOtWins :: int
  division :: string
  conference :: string
  isDivisionLeader :: bool
  isWildCard :: bool
  divisionRank :: nat
  conferenceRank :: nat

datatype PlayoffStatus = clinched | eliminated | competing

record PlayoffCalculations =
  remainingGames :: int
  remainingPoints :: int
  maxPossiblePoints :: int
  pointsGap :: int
  requiredPointsPercentage :: "rat option"
  playoffStatus :: PlayoffStatus

section \<open>Ranking engine: point percentage (utils/calculations.ts)\<close>

text \<open>\<open>Math.round\<close> rounds to the nearest integer, a half going up.\<close>

definition Math_round :: "rat \<Rightarrow> int" where
  "Math_round x = \<lfloor>x + 1 / 2\<rfloor>"

definition calculatePointPercentage :: "int \<Rightarrow> int \<Rightarrow> rat" where
  "calculatePointPercentage pts gp =
     (if gp = 0 then 0
      else let maxPossible = gp * 2;
               percentage = of_int pts / of_int maxPossible
           in of_int (Math_round (percentage * 1000)) / 1000)"

section \<open>Projector (utils/playoffCalculator.ts)\<close>

definition TOTAL_SEASON_GAMES :: int where
  "TOTAL_SEASON_GAMES = 82"

definition POINTS_PER_GAME :: int where
  "POINTS_PER_GAME = 2"

definition calculatePlayoffStats :: "Team \<Rightarrow> int \<Rightarrow> PlayoffCalculations" where
  "calculatePlayoffStats team playoffThreshold =
     (let remGames = max 0 (TOTAL_SEASON_GAMES - gamesPlayed team);
          remPoints = remGames * POINTS_PER_GAME;
          maxPoints = points team + remPoints;
          gap = playoffThreshold - points team;
          (status, required) =
            (if points team \<ge> playoffThreshold then (clinched, None)
             else if maxPoints < playoffThreshold then (eliminated, None)
             else (competing,
                   if remPoints > 0
                   then Some (of_int gap / of_int remPoints * 100)
                   else None))
      in \<lparr> remainingGames = remGames,
           remainingPoints = remPoints,
           maxPossiblePoints = maxPoints,
           pointsGap = gap,
           requiredPointsPercentage = required,
           playoffStatus = status \<rparr>)"

section \<open>Ranking engine: tiebreak and sort (utils/calculations.ts)\<close>

text \<open>The enum \<open>TiebreakerResult\<close> of types/standings.ts, with its numeric values.\<close>

datatype TiebreakerResult = TEAM_A_WINS | TIE | TEAM_B_WINS

fun tiebreakerValue :: "TiebreakerResult \<Rightarrow> int" where
  "tiebreakerValue TEAM_A_WINS = - 1"
| "tiebreakerValue TIE = 0"
| "tiebreakerValue TEAM_B_WINS = 1"

definition applyTiebreaker :: "Team \<Rightarrow> Team \<Rightarrow> TiebreakerResult" where
  "applyTiebreaker teamA teamB =
     (if gamesPlayed teamA < gamesPlayed teamB then TEAM_A_WINS
      else if gamesPlayed teamA > gamesPlayed teamB then TEAM_B_WINS
      else if regulationWins teamA > regulationWins teamB then TEAM_A_WINS
      else if regulationWins teamA < regulationWins teamB then TEAM_B_WINS
      else TIE)"

text \<open>The comparison callback that \<open>sortTeamsByStandings\<close> hands to \<open>sort\<close>.\<close>

definition compareStandings :: "Team \<Rightarrow> Team \<Rightarrow> int" where
  "compareStandings teamA teamB =
     (if pointPercentage teamA > pointPercentage teamB then - 1
      else if pointPercentage teamA < pointPercentage teamB then 1
      else tiebreakerValue (applyTiebreaker teamA teamB))"

text \<open>
  \<open>Array.prototype.sort\<close> with a comparison callback. ECMAScript fixes the result for a
  consistent comparator (the sorted permutation that keeps equal elements in their
  original order) and leaves the algorithm to the engine; the model is the stable
  insertion sort, and \<open>Array_sort_unique\<close> below shows that no other list meets the
  three requirements for the comparator used here.
\<close>

fun Array_insert :: "('a \<Rightarrow> 'a \<Rightarrow> int) \<Rightarrow> 'a \<Rightarrow> 'a list \<Rightarrow> 'a list" where
  "Array_insert cmp x [] = [x]"
| "Array_insert cmp x (y # ys) =
     (if cmp x y \<le> 0 then x # y # ys else y # Array_insert cmp x ys)"

definition Array_sort :: "('a \<Rightarrow> 'a \<Rightarrow> int) \<Rightarrow> 'a list \<Rightarrow> 'a list" where
  "Array_sort cmp xs = foldr (Array_insert cmp) xs []"

text \<open>The copy \<open>[...teams]\<close> is the list itself: values are immutable here.\<close>

definition sortTeamsByStandings :: "Team list \<Rightarrow> Team list" where
  "sortTeamsByStandings teams = Array_sort compareStandings teams"

text \<open>
  The sort key that the comparison callback induces: descending point percentage,
  ascending games played, descending regulation wins, ordered lexicographically.
\<close>

definition standingKey :: "Team \<Rightarrow> rat \<times> int \<times> int" where
  "standingKey t = (- pointPercentage t, gamesPlayed t, - regulationWins t)"

text \<open>The team fixture of tests/calculations.test.ts (\<open>createTeam\<close> without overrides).\<close>

definition testTeam :: Team where
  "testTeam = \<lparr> teamId = 1, name = ''Test Team'', abbrev = ''TST'', wins = 20, losses = 10,
       otLosses = 5, points = 45, gamesPlayed = 35, pointPercentage = 643 / 1000,
       regulationWins = 15, regulationPlusOtWins = 18, division = ''Atlantic'',
       conference = ''Eastern'', isDivisionLeader = False, isWildCard = False,
       divisionRank = 0, conferenceRank = 0 \<rparr>"

section \<open>Classifier (utils/playoffs.ts)\<close>

text \<open>
  A \<open>Map<string, Team[]>\<close> is the list of its entries in insertion order, which is
  the order in which \<open>for ... of\<close> visits them. \<open>pushTo k v m\<close> is the loop body
  \<open>if (!m.has(k)) m.set(k, []); m.get(k).push(v)\<close>.
\<close>

fun pushTo :: "string \<Rightarrow> 'a \<Rightarrow> (string \<times> 'a list) list \<Rightarrow> (string \<times> 'a list) list" where
  "pushTo k v [] = [(k, [v])]"
| "pushTo k v ((k', vs) # m) =
     (if k' = k then (k', vs @ [v]) # m else (k', vs) # pushTo k v m)"

definition groupBy :: "('a \<Rightarrow> string) \<Rightarrow> 'a list \<Rightarrow> (string \<times> 'a list) list" where
  "groupBy f xs = fold (\<lambda>x m. pushTo (f x) x m) xs []"

definition identifyDivisionLeaders :: "Team list \<Rightarrow> Team list" where
  "identifyDivisionLeaders teams =
     (let teamsByDivision = groupBy division teams
      in concat (map (\<lambda>(divisionName, divisionTeams).
           let sortedDivisionTeams = sortTeamsByStandings divisionTeams
           in map (\<lambda>(index, team).
                     team\<lparr> isDivisionLeader := index < 3, divisionRank := index + 1 \<rparr>)
                  (enumerate 0 sortedDivisionTeams))
         teamsByDivision))"

definition identifyWildCards :: "Team list \<Rightarrow> Team list" where
  "identifyWildCards teams =
     (let teamsByConference = groupBy conference teams
      in concat (map (\<lambda>(conferenceName, conferenceTeams).
           let nonDivisionLeaders = filter (\<lambda>team. \<not> isDivisionLeader team) conferenceTeams;
               sortedNonLeaders = sortTeamsByStandings nonDivisionLeaders;
               wildCardTeams = take 2 sortedNonLeaders;
               wildCardIds = set (map teamId wildCardTeams)
           in map (\<lambda>team. team\<lparr> isWildCard := teamId team \<in> wildCardIds \<rparr>) conferenceTeams)
         teamsByConference))"

section \<open>Transformer and document assembly (scripts/processStandings.ts)\<close>

text \<open>
  The raw entry type \<open>NHLStandingEntry\<close> and the response type \<open>NHLApiResponse\<close>
  of types/nhl.ts. The name fields are objects with a \<open>default\<close> string; an
  optional property is an \<open>option\<close>. The numeric fields carry the prefix \<open>raw\<close>
  because the record \<open>Team\<close> already owns the plain names.
\<close>

record LocalizedString =
  default' :: string

record NHLStandingEntry =
  teamAbbrev :: LocalizedString
  teamName :: LocalizedString
  teamCommonName :: LocalizedString
  teamLogo :: string
  rawWins :: int
  rawLosses :: int
  rawOtLosses :: int
  rawPoints :: int
  rawGamesPlayed :: int
  rawRegulationWins :: int
  rawRegulationPlusOtWins :: int
  divisionName :: string
  conferenceName :: string
  divisionAbbrev :: string
  conferenceAbbrev :: string
  placeName :: "LocalizedString option"

record NHLApiResponse =
  standings :: "NHLStandingEntry list"
  wildCardIndicator :: "bool option"




definition calculateConferenceRanks :: "Team list \<Rightarrow> Team list" where
  "calculateConferenceRanks teams =
     (let teamsByConference = groupBy conference teams
      in concat (map (\<lambda>(conferenceName, conferenceTeams).
           let sortedTeams = sortTeamsByStandings conferenceTeams
           in map (\<lambda>(index, team). team\<lparr> conferenceRank := index + 1 \<rparr>)
                  (enumerate 0 sortedTeams))
         teamsByConference))"


text \<open>
  The three classification steps in the order in which \<open>processStandings\<close> applies them.
\<close>

definition classifyTeams :: "Team list \<Rightarrow> Team list" where
  "classifyTeams teams =
     calculateConferenceRanks (identifyWildCards (identifyDivisionLeaders teams))"


section \<open>Auxiliary notions for the classifier proofs\<close>

text \<open>
  The three classifier passes share one shape: group the teams by a name, rewrite each
  group, and concatenate the rewritten groups in the order in which the groups were
  first met. The group rewrites are named so that the passes can be reasoned about
  group by group; the equations \<open>identifyDivisionLeaders_regroup\<close>,
  \<open>identifyWildCards_regroup\<close> and \<open>calculateConferenceRanks_regroup\<close> tie them to
  the passes as written above.
\<close>

definition regroup :: "('a \<Rightarrow> string) \<Rightarrow> ('a list \<Rightarrow> 'a list) \<Rightarrow> 'a list \<Rightarrow> 'a list" where
  "regroup f H xs = concat (map (\<lambda>(k, g). H g) (groupBy f xs))"

definition rankDivision :: "Team list \<Rightarrow> Team list" where
  "rankDivision g =
     map (\<lambda>(index, team). team\<lparr> isDivisionLeader := index < 3, divisionRank := index + 1 \<rparr>)
         (enumerate 0 (sortTeamsByStandings g))"

definition wildCardIdsOf :: "Team list \<Rightarrow> nat set" where
  "wildCardIdsOf g =
     set (map teamId (take 2 (sortTeamsByStandings (filter (\<lambda>team. \<not> isDivisionLeader team) g))))"

definition flagWildCards :: "Team list \<Rightarrow> Team list" where
  "flagWildCards g = map (\<lambda>team. team\<lparr> isWildCard := teamId team \<in> wildCardIdsOf g \<rparr>) g"

definition rankConference :: "Team list \<Rightarrow> Team list" where
  "rankConference g =
     map (\<lambda>(index, team). team\<lparr> conferenceRank := index + 1 \<rparr>)
         (enumerate 0 (sortTeamsByStandings g))"

text \<open>A team without the two fields that the passes after the division pass set.\<close>

definition afterDivisionPass :: "Team \<Rightarrow> Team" where
  "afterDivisionPass t = t\<lparr> isWildCard := False, conferenceRank := 0 \<rparr>"

section \<open>Sample inputs\<close>

text \<open>
  The teams of tests/playoffs.test.ts (two divisions of four teams in one conference),
  built from the fixture as \<open>createTeam\<close> does there.
\<close>

definition createTeam :: "nat \<Rightarrow> string \<Rightarrow> string \<Rightarrow> rat \<Rightarrow> Team" where
  "createTeam i d c p =
     testTeam\<lparr> teamId := i, division := d, conference := c, pointPercentage := p \<rparr>"

definition sampleTeams :: "Team list" where
  "sampleTeams =
     [createTeam 1 ''Atlantic'' ''Eastern'' (700 / 1000),
      createTeam 2 ''Atlantic'' ''Eastern'' (650 / 1000),
      createTeam 3 ''Atlantic'' ''Eastern'' (600 / 1000),
      createTeam 4 ''Atlantic'' ''Eastern'' (550 / 1000),
      createTeam 5 ''Metropolitan'' ''Eastern'' (680 / 1000),
      createTeam 6 ''Metropolitan'' ''Eastern'' (620 / 1000),
      createTeam 7 ''Metropolitan'' ''Eastern'' (580 / 1000),
      createTeam 8 ''Metropolitan'' ''Eastern'' (540 / 1000)]"

section \<open>Untyped payloads: JavaScript values\<close>

text \<open>
  The validator receives \<open>data: any\<close>, the result of \<open>response.json()\<close> or of
  \<open>JSON.parse\<close>. A number is an integer (exact as a double up to \<open>2^53\<close>, far beyond
  every range the validator accepts) or one of the three non-finite values that
  \<open>Number.isFinite\<close> rejects; payloads with fractional numbers are outside the model.
  An object is the list of its own properties.
\<close>

datatype jsnum = Fin int | PosInf | NegInf | NaN

datatype jsval =
    JUndefined
  | JNull
  | JBool bool
  | JNum jsnum
  | JStr string
  | JArr "jsval list"
  | JObj "(string \<times> jsval) list"

fun js_typeof :: "jsval \<Rightarrow> string" where
  "js_typeof JUndefined = ''undefined''"
| "js_typeof JNull = ''object''"
| "js_typeof (JBool b) = ''boolean''"
| "js_typeof (JNum n) = ''number''"
| "js_typeof (JStr s) = ''string''"
| "js_typeof (JArr xs) = ''object''"
| "js_typeof (JObj kvs) = ''object''"

text \<open>Truthiness, as tested by \<open>!x\<close> and \<open>x && ...\<close>.\<close>

fun js_truthy :: "jsval \<Rightarrow> bool" where
  "js_truthy JUndefined = False"
| "js_truthy JNull = False"
| "js_truthy (JBool b) = b"
| "js_truthy (JNum (Fin n)) = (n \<noteq> 0)"
| "js_truthy (JNum NaN) = False"
| "js_truthy (JNum PosInf) = True"
| "js_truthy (JNum NegInf) = True"
| "js_truthy (JStr s) = (s \<noteq> [])"
| "js_truthy (JArr xs) = True"
| "js_truthy (JObj kvs) = True"

text \<open>
  The property read \<open>v.k\<close> (or \<open>v[k]\<close>) on a value that is neither \<open>null\<close> nor
  \<open>undefined\<close>, for the property names that the program reads (\<open>standings\<close>, the
  entry fields, \<open>default\<close>, \<open>data\<close>, \<open>timestamp\<close>): none of them is inherited from
  a prototype, so an object yields its own property or \<open>undefined\<close>, and a boolean, a
  number, a string or an array yields \<open>undefined\<close>. A read on \<open>null\<close> or
  \<open>undefined\<close> throws a TypeError; the callers below test for that case before they
  read.
\<close>

fun js_get :: "jsval \<Rightarrow> string \<Rightarrow> jsval" where
  "js_get (JObj kvs) k = (case map_of kvs k of Some v \<Rightarrow> v | None \<Rightarrow> JUndefined)"
| "js_get v k = JUndefined"

definition js_nullish :: "jsval \<Rightarrow> bool" where
  "js_nullish v = (v = JUndefined \<or> v = JNull)"

text \<open>Arithmetic and comparison of numbers: \<open>+\<close>, \<open>* 2\<close>, \<open>===\<close> and \<open>>\<close>.\<close>

fun jsnum_add :: "jsnum \<Rightarrow> jsnum \<Rightarrow> jsnum" where
  "jsnum_add (Fin a) (Fin b) = Fin (a + b)"
| "jsnum_add NaN y = NaN"
| "jsnum_add x NaN = NaN"
| "jsnum_add PosInf NegInf = NaN"
| "jsnum_add NegInf PosInf = NaN"
| "jsnum_add PosInf y = PosInf"
| "jsnum_add NegInf y = NegInf"
| "jsnum_add (Fin a) y = y"

fun jsnum_double :: "jsnum \<Rightarrow> jsnum" where
  "jsnum_double (Fin a) = Fin (a * 2)"
| "jsnum_double x = x"

fun jsnum_eq :: "jsnum \<Rightarrow> jsnum \<Rightarrow> bool" where
  "jsnum_eq NaN y = False"
| "jsnum_eq x NaN = False"
| "jsnum_eq x y = (x = y)"

fun jsnum_gt :: "jsnum \<Rightarrow> jsnum \<Rightarrow> bool" where
  "jsnum_gt (Fin a) (Fin b) = (a > b)"
| "jsnum_gt NaN y = False"
| "jsnum_gt x NaN = False"
| "jsnum_gt PosInf y = (y \<noteq> PosInf)"
| "jsnum_gt x NegInf = (x \<noteq> NegInf)"
| "jsnum_gt x y = False"

text \<open>The decimal numeral that a template literal prints for an array index or a status.\<close>

fun show_nat :: "nat \<Rightarrow> string" where
  "show_nat n =
     (if n < 10 then [''0123456789'' ! n]
      else show_nat (n div 10) @ [''0123456789'' ! (n mod 10)])"

declare show_nat.simps [simp del]

text \<open>Thrown values: an \<open>Error\<close>, a \<open>TypeError\<close> or a \<open>SyntaxError\<close>, each with its message.\<close>

datatype JsError = Error string | TypeError string | SyntaxError string

fun errorMessage :: "JsError \<Rightarrow> string" where
  "errorMessage (Error m) = m"
| "errorMessage (TypeError m) = m"
| "errorMessage (SyntaxError m) = m"

section \<open>Validator (utils/validation.ts)\<close>

text \<open>
  A validation error keeps its field path; its message is one of the fixed templates
  of the source, named by a constructor (the interpolated values and the optional
  \<open>value\<close> property are left out).
\<close>

datatype MessageKind =
    ResponseNullOrUndefined
  | MissingStandingsArray
  | StandingsNotAnArray
  | UnexpectedTeamCount
  | MissingRequiredField
  | MustBeANumber
  | MustBeFinite
  | MustBeInRange
  | GamesPlayedMismatch
  | PointsMismatch
  | RegulationWinsExceedWins
  | InvalidDivisionName
  | InvalidConferenceName
  | NoDefaultString
  | UnexpectedDivisionCount
  | UnexpectedConferenceCount

record ValidationError =
  field :: string
  message :: MessageKind

record ValidationResult =
  isValid :: bool
  errors :: "ValidationError list"

definition EXPECTED_TEAM_COUNT :: nat where
  "EXPECTED_TEAM_COUNT = 32"

definition VALID_DIVISIONS :: "string list" where
  "VALID_DIVISIONS = [''Atlantic'', ''Metropolitan'', ''Central'', ''Pacific'']"

definition VALID_CONFERENCES :: "string list" where
  "VALID_CONFERENCES = [''Eastern'', ''Western'']"

definition requiredFields :: "string list" where
  "requiredFields = [''teamName'', ''teamAbbrev'', ''wins'', ''losses'', ''otLosses'',
     ''points'', ''gamesPlayed'', ''regulationWins'', ''divisionName'', ''conferenceName'']"

definition numericValidations :: "(string \<times> int \<times> int) list" where
  "numericValidations = [(''wins'', 0, 82), (''losses'', 0, 82), (''otLosses'', 0, 82),
     (''points'', 0, 164), (''gamesPlayed'', 0, 82), (''regulationWins'', 0, 82)]"

text \<open>
  After the range checks the source compares the fields with \<open>!==\<close>, \<open>+\<close>, \<open>*\<close> and
  \<open>>\<close> whatever their types are. On numbers the comparisons are computed here; when
  an operand is not a number JavaScript coerces (string concatenation, conversion to
  number), which is not modelled: the outcome of each comparison on such operands is a
  parameter. An entry of that kind has a \<open>MustBeANumber\<close> error already, so the
  parameter never decides whether a snapshot is valid.
\<close>

record Coercion =
  gamesPlayedDiffers :: "jsval \<Rightarrow> jsval \<Rightarrow> jsval \<Rightarrow> jsval \<Rightarrow> bool"
  pointsDiffer :: "jsval \<Rightarrow> jsval \<Rightarrow> jsval \<Rightarrow> bool"
  regulationWinsGreater :: "jsval \<Rightarrow> jsval \<Rightarrow> bool"

text \<open>\<open>gp !== w + l + otl\<close>\<close>

fun gamesPlayedMismatch :: "Coercion \<Rightarrow> jsval \<Rightarrow> jsval \<Rightarrow> jsval \<Rightarrow> jsval \<Rightarrow> bool" where
  "gamesPlayedMismatch co (JNum gp) (JNum w) (JNum l) (JNum otl) =
     (\<not> jsnum_eq gp (jsnum_add (jsnum_add w l) otl))"
| "gamesPlayedMismatch co gp w l otl = gamesPlayedDiffers co gp w l otl"

text \<open>\<open>p !== w * 2 + otl\<close>\<close>

fun pointsMismatch :: "Coercion \<Rightarrow> jsval \<Rightarrow> jsval \<Rightarrow> jsval \<Rightarrow> bool" where
  "pointsMismatch co (JNum p) (JNum w) (JNum otl) =
     (\<not> jsnum_eq p (jsnum_add (jsnum_double w) otl))"
| "pointsMismatch co p w otl = pointsDiffer co p w otl"

text \<open>\<open>rw > w\<close>\<close>

fun regulationWinsExceed :: "Coercion \<Rightarrow> jsval \<Rightarrow> jsval \<Rightarrow> bool" where
  "regulationWinsExceed co (JNum rw) (JNum w) = jsnum_gt rw w"
| "regulationWinsExceed co rw w = regulationWinsGreater co rw w"

text \<open>One element of the \<open>numericValidations.forEach\<close> loop.\<close>

fun numericErrors :: "string \<Rightarrow> jsval \<Rightarrow> string \<times> int \<times> int \<Rightarrow> ValidationError list" where
  "numericErrors prefix team (fieldName, lo, hi) =
     (case js_get team fieldName of
        JNum (Fin v) \<Rightarrow>
          (if v < lo \<or> v > hi
           then [\<lparr> field = prefix @ ''.'' @ fieldName, message = MustBeInRange \<rparr>] else [])
      | JNum _ \<Rightarrow> [\<lparr> field = prefix @ ''.'' @ fieldName, message = MustBeFinite \<rparr>]
      | _ \<Rightarrow> [\<lparr> field = prefix @ ''.'' @ fieldName, message = MustBeANumber \<rparr>])"

text \<open>\<open>VALID_DIVISIONS.includes(v)\<close>: only a string can be the same value as a list element.\<close>

fun Array_includes :: "string list \<Rightarrow> jsval \<Rightarrow> bool" where
  "Array_includes names (JStr s) = (s \<in> set names)"
| "Array_includes names v = False"

text \<open>The check of the nested name objects: \<open>teamName\<close> and \<open>teamAbbrev\<close>.\<close>

definition defaultStringErrors :: "string \<Rightarrow> jsval \<Rightarrow> string \<Rightarrow> ValidationError list" where
  "defaultStringErrors prefix team fieldName =
     (let v = js_get team fieldName
      in if js_truthy v \<and> js_typeof v = ''object''
         then (if \<not> js_truthy (js_get v ''default'')
                  \<or> js_typeof (js_get v ''default'') \<noteq> ''string''
               then [\<lparr> field = prefix @ ''.'' @ fieldName @ ''.default'',
                       message = NoDefaultString \<rparr>]
               else [])
         else [])"

text \<open>The checks of \<open>validateTeamEntry\<close>, one definition per block of the source.\<close>

definition missingFieldErrors :: "string \<Rightarrow> jsval \<Rightarrow> ValidationError list" where
  "missingFieldErrors prefix team =
     concat (map (\<lambda>fieldName.
                    if js_nullish (js_get team fieldName)
                    then [\<lparr> field = prefix @ ''.'' @ fieldName, message = MissingRequiredField \<rparr>]
                    else []) requiredFields)"

definition gamesPlayedErrors :: "Coercion \<Rightarrow> string \<Rightarrow> jsval \<Rightarrow> ValidationError list" where
  "gamesPlayedErrors co prefix team =
     (if gamesPlayedMismatch co (js_get team ''gamesPlayed'') (js_get team ''wins'')
           (js_get team ''losses'') (js_get team ''otLosses'')
      then [\<lparr> field = prefix @ ''.gamesPlayed'', message = GamesPlayedMismatch \<rparr>]
      else [])"

definition pointsErrors :: "Coercion \<Rightarrow> string \<Rightarrow> jsval \<Rightarrow> ValidationError list" where
  "pointsErrors co prefix team =
     (if pointsMismatch co (js_get team ''points'') (js_get team ''wins'')
           (js_get team ''otLosses'')
      then [\<lparr> field = prefix @ ''.points'', message = PointsMismatch \<rparr>]
      else [])"

definition regulationWinsErrors :: "Coercion \<Rightarrow> string \<Rightarrow> jsval \<Rightarrow> ValidationError list" where
  "regulationWinsErrors co prefix team =
     (if regulationWinsExceed co (js_get team ''regulationWins'') (js_get team ''wins'')
      then [\<lparr> field = prefix @ ''.regulationWins'', message = RegulationWinsExceedWins \<rparr>]
      else [])"

definition divisionNameErrors :: "string \<Rightarrow> jsval \<Rightarrow> ValidationError list" where
  "divisionNameErrors prefix team =
     (if \<not> Array_includes VALID_DIVISIONS (js_get team ''divisionName'')
      then [\<lparr> field = prefix @ ''.divisionName'', message = InvalidDivisionName \<rparr>]
      else [])"

definition conferenceNameErrors :: "string \<Rightarrow> jsval \<Rightarrow> ValidationError list" where
  "conferenceNameErrors prefix team =
     (if \<not> Array_includes VALID_CONFERENCES (js_get team ''conferenceName'')
      then [\<lparr> field = prefix @ ''.conferenceName'', message = InvalidConferenceName \<rparr>]
      else [])"

text \<open>
  \<open>validateTeamEntry\<close> reads \<open>team[field]\<close> first; on an array element that is
  \<open>null\<close> or \<open>undefined\<close> this read throws a TypeError (the text of the message is the
  engine's). Missing required fields end the checks of the entry; otherwise every
  check runs and the errors accumulate in the order of the source.
\<close>

definition validateTeamEntry :: "Coercion \<Rightarrow> jsval \<Rightarrow> nat \<Rightarrow> JsError + ValidationError list" where
  "validateTeamEntry co team index =
     (if js_nullish team then Inl (TypeError ''Cannot read properties of null or undefined'')
      else
        let prefix = ''standings['' @ show_nat index @ '']'';
            missing = missingFieldErrors prefix team
        in if missing \<noteq> [] then Inr missing
           else Inr
             (concat (map (numericErrors prefix team) numericValidations)
              @ gamesPlayedErrors co prefix team
              @ pointsErrors co prefix team
              @ regulationWinsErrors co prefix team
              @ divisionNameErrors prefix team
              @ conferenceNameErrors prefix team
              @ defaultStringErrors prefix team ''teamName''
              @ defaultStringErrors prefix team ''teamAbbrev''))"

text \<open>
  The loop \<open>data.standings.forEach((team, index) => ...)\<close>: the errors of the entries
  in order; an entry on which \<open>validateTeamEntry\<close> throws ends the loop.
\<close>

fun validateEntries :: "Coercion \<Rightarrow> jsval list \<Rightarrow> nat \<Rightarrow> JsError + ValidationError list" where
  "validateEntries co [] index = Inr []"
| "validateEntries co (team # rest) index =
     (case validateTeamEntry co team index of
        Inl e \<Rightarrow> Inl e
      | Inr teamErrors \<Rightarrow>
          (case validateEntries co rest (Suc index) of
             Inl e \<Rightarrow> Inl e
           | Inr restErrors \<Rightarrow> Inr (teamErrors @ restErrors)))"

definition validateNHLApiResponse :: "Coercion \<Rightarrow> jsval \<Rightarrow> JsError + ValidationResult" where
  "validateNHLApiResponse co data =
     (if \<not> js_truthy data
      then Inr \<lparr> isValid = False,
                 errors = [\<lparr> field = ''data'', message = ResponseNullOrUndefined \<rparr>] \<rparr>
      else if \<not> js_truthy (js_get data ''standings'')
      then Inr \<lparr> isValid = False,
                 errors = [\<lparr> field = ''standings'', message = MissingStandingsArray \<rparr>] \<rparr>
      else
        (case js_get data ''standings'' of
           JArr teams \<Rightarrow>
             (let countErrors =
                    (if length teams \<noteq> EXPECTED_TEAM_COUNT
                     then [\<lparr> field = ''standings.length'', message = UnexpectedTeamCount \<rparr>]
                     else [])
              in case validateEntries co teams 0 of
                   Inl e \<Rightarrow> Inl e
                 | Inr teamErrors \<Rightarrow>
                     Inr \<lparr> isValid = (countErrors @ teamErrors = []),
                           errors = countErrors @ teamErrors \<rparr>)
         | _ \<Rightarrow>
             Inr \<lparr> isValid = False,
                   errors = [\<lparr> field = ''standings'', message = StandingsNotAnArray \<rparr>] \<rparr>))"

text \<open>The narrower checks take the typed response.\<close>

definition validateTeamCount :: "NHLApiResponse \<Rightarrow> ValidationResult" where
  "validateTeamCount data =
     (let errs = (if length (standings data) \<noteq> EXPECTED_TEAM_COUNT
                  then [\<lparr> field = ''standings.length'', message = UnexpectedTeamCount \<rparr>]
                  else [])
      in \<lparr> isValid = (errs = []), errors = errs \<rparr>)"

text \<open>
  The counting loop \<open>counts[k] = (counts[k] || 0) + 1\<close> over a record of numbers,
  and the read \<open>counts[k] || 0\<close>.
\<close>

definition countUp :: "(string \<rightharpoonup> nat) \<Rightarrow> string \<Rightarrow> (string \<rightharpoonup> nat)" where
  "countUp counts k = counts(k \<mapsto> (case counts k of None \<Rightarrow> 0 | Some n \<Rightarrow> n) + 1)"

definition countOf :: "(string \<rightharpoonup> nat) \<Rightarrow> string \<Rightarrow> nat" where
  "countOf counts k = (case counts k of None \<Rightarrow> 0 | Some n \<Rightarrow> n)"

definition validateDivisionDistribution :: "NHLApiResponse \<Rightarrow> ValidationResult" where
  "validateDivisionDistribution data =
     (let divisionCounts = fold (\<lambda>team counts. countUp counts (divisionName team))
                             (standings data) Map.empty;
          errs = concat (map (\<lambda>d. if countOf divisionCounts d \<noteq> 8
                                    then [\<lparr> field = ''division.'' @ d,
                                            message = UnexpectedDivisionCount \<rparr>]
                                    else []) VALID_DIVISIONS)
      in \<lparr> isValid = (errs = []), errors = errs \<rparr>)"

definition validateConferenceDistribution :: "NHLApiResponse \<Rightarrow> ValidationResult" where
  "validateConferenceDistribution data =
     (let conferenceCounts = fold (\<lambda>team counts. countUp counts (conferenceName team))
                               (standings data) Map.empty;
          errs = concat (map (\<lambda>c. if countOf conferenceCounts c \<noteq> 16
                                    then [\<lparr> field = ''conference.'' @ c,
                                            message = UnexpectedConferenceCount \<rparr>]
                                    else []) VALID_CONFERENCES)
      in \<lparr> isValid = (errs = []), errors = errs \<rparr>)"

text \<open>
  The notions of the snapshot invariant, read off a raw snapshot: its entries, and the
  number of entries that name a given division or conference.
\<close>

definition snapshotTeams :: "jsval \<Rightarrow> jsval list" where
  "snapshotTeams data = (case js_get data ''standings'' of JArr teams \<Rightarrow> teams | _ \<Rightarrow> [])"

definition teamsInDivision :: "jsval \<Rightarrow> string \<Rightarrow> nat" where
  "teamsInDivision data d =
     length (filter (\<lambda>team. js_get team ''divisionName'' = JStr d) (snapshotTeams data))"

definition teamsInConference :: "jsval \<Rightarrow> string \<Rightarrow> nat" where
  "teamsInConference data c =
     length (filter (\<lambda>team. js_get team ''conferenceName'' = JStr c) (snapshotTeams data))"

text \<open>
  The valid team of tests/validation.test.ts (\<open>createValidTeam\<close>), raw and typed, and a
  coercion parameter for closed examples (their inputs hold numbers only, so that it
  is never consulted).
\<close>

definition createValidTeam :: jsval where
  "createValidTeam = JObj
     [(''teamAbbrev'', JObj [(''default'', JStr ''TOR'')]),
      (''teamName'', JObj [(''default'', JStr ''Toronto Maple Leafs'')]),
      (''teamCommonName'', JObj [(''default'', JStr ''Maple Leafs'')]),
      (''teamLogo'', JStr ''https://example.com/logo.png''),
      (''wins'', JNum (Fin 30)),
      (''losses'', JNum (Fin 15)),
      (''otLosses'', JNum (Fin 5)),
      (''points'', JNum (Fin 65)),
      (''gamesPlayed'', JNum (Fin 50)),
      (''regulationWins'', JNum (Fin 25)),
      (''regulationPlusOtWins'', JNum (Fin 28)),
      (''divisionName'', JStr ''Atlantic''),
      (''conferenceName'', JStr ''Eastern''),
      (''divisionAbbrev'', JStr ''ATL''),
      (''conferenceAbbrev'', JStr ''E'')]"

definition createValidEntry :: NHLStandingEntry where
  "createValidEntry =
     \<lparr> teamAbbrev = \<lparr> default' = ''TOR'' \<rparr>,
       teamName = \<lparr> default' = ''Toronto Maple Leafs'' \<rparr>,
       teamCommonName = \<lparr> default' = ''Maple Leafs'' \<rparr>,
       teamLogo = ''https://example.com/logo.png'',
       rawWins = 30, rawLosses = 15, rawOtLosses = 5, rawPoints = 65, rawGamesPlayed = 50,
       rawRegulationWins = 25, rawRegulationPlusOtWins = 28,
       divisionName = ''Atlantic'', conferenceName = ''Eastern'',
       divisionAbbrev = ''ATL'', conferenceAbbrev = ''E'', placeName = None \<rparr>"

definition strictCoercion :: Coercion where
  "strictCoercion = \<lparr> gamesPlayedDiffers = (\<lambda>gp w l otl. True),
                       pointsDiffer = (\<lambda>p w otl. True),
                       regulationWinsGreater = (\<lambda>rw w. False) \<rparr>"

text \<open>
  The snapshot of the first test of tests/validation.test.ts: 32 copies of the valid
  team (raw and typed), and the same with the team name given as a plain string.
\<close>

definition uniformSnapshot :: jsval where
  "uniformSnapshot = JObj [(''standings'', JArr (replicate 32 createValidTeam))]"

definition uniformResponse :: NHLApiResponse where
  "uniformResponse = \<lparr> standings = replicate 32 createValidEntry,
                         wildCardIndicator = None \<rparr>"



text \<open>A team whose name object has an empty \<open>default\<close> string.\<close>

definition emptyNamedTeam :: jsval where
  "emptyNamedTeam = JObj
     [(''teamAbbrev'', JObj [(''default'', JStr ''TOR'')]),
      (''teamName'', JObj [(''default'', JStr [])]),
      (''wins'', JNum (Fin 30)),
      (''losses'', JNum (Fin 15)),
      (''otLosses'', JNum (Fin 5)),
      (''points'', JNum (Fin 65)),
      (''gamesPlayed'', JNum (Fin 50)),
      (''regulationWins'', JNum (Fin 25)),
      (''divisionName'', JStr ''Atlantic''),
      (''conferenceName'', JStr ''Eastern'')]"

definition emptyNamedSnapshot :: jsval where
  "emptyNamedSnapshot = JObj [(''standings'', JArr [emptyNamedTeam])]"


section \<open>Acquirer (scripts/fetchData.ts)\<close>

definition CACHE_DIR :: string where
  "CACHE_DIR = ''.cache''"

definition CACHE_FILE :: string where
  "CACHE_FILE = ''.cache/nhl-standings.json''"

definition MAX_RETRIES :: nat where
  "MAX_RETRIES = 3"

definition INITIAL_RETRY_DELAY :: nat where
  "INITIAL_RETRY_DELAY = 1000"

record FetchResult =
  data :: jsval
  isStale :: bool
  cacheTimestamp :: jsval

text \<open>
  The network: what \<open>fetch\<close> does on each attempt. It rejects with a message, or it
  resolves with a response whose \<open>json()\<close> resolves with a value or rejects.
\<close>

datatype Body = JsonBody jsval | BadBody string

record Response =
  ok :: bool
  status :: nat
  body :: Body

datatype FetchOutcome = Rejected string | Resolved Response

text \<open>
  The file system: the directories and the files with their contents. A content is a
  complete JSON text, given by the value that \<open>JSON.parse\<close> returns for it, or a text
  that does not parse (such as the beginning of a JSON text). \<open>JSON.stringify\<close> writes
  the text of the value it is given: the payloads written here come from
  \<open>response.json()\<close>, for which printing and parsing are inverse.
\<close>

datatype FileContent = JsonText jsval | Unparseable

record FileSystem =
  dirs :: "string set"
  files :: "string \<rightharpoonup> FileContent"

definition existsSync :: "FileSystem \<Rightarrow> string \<Rightarrow> bool" where
  "existsSync fsys path = (path \<in> dirs fsys \<or> files fsys path \<noteq> None)"

definition mkdirSync :: "FileSystem \<Rightarrow> string \<Rightarrow> FileSystem" where
  "mkdirSync fsys path = fsys\<lparr> dirs := insert path (dirs fsys) \<rparr>"

text \<open>
  \<open>fs.writeFileSync(path, text)\<close> opens the file with flag \<open>w\<close>, which creates or
  truncates it, and then writes the text. It can fail before the file is opened (the
  file is untouched) or after (the file is left with a part of the text); in both cases
  it throws.
\<close>

datatype WriteFault = NoFault | FailBeforeOpen | FailAfterOpen

definition writeFileSync ::
    "WriteFault \<Rightarrow> FileSystem \<Rightarrow> string \<Rightarrow> jsval \<Rightarrow> JsError option \<times> FileSystem" where
  "writeFileSync fault fsys path v =
     (case fault of
        NoFault \<Rightarrow> (None, fsys\<lparr> files := (files fsys)(path \<mapsto> JsonText v) \<rparr>)
      | FailBeforeOpen \<Rightarrow> (Some (Error ''EACCES: permission denied''), fsys)
      | FailAfterOpen \<Rightarrow>
          (Some (Error ''ENOSPC: no space left on device''),
           fsys\<lparr> files := (files fsys)(path \<mapsto> Unparseable) \<rparr>))"

text \<open>
  The environment of one run: the network, the clock reading used for the cache
  timestamp, the faults of the file system, and the coercion parameter of the validator.
\<close>

record Env =
  network :: "nat \<Rightarrow> FetchOutcome"
  now :: string
  mkdirFails :: bool
  writeFault :: WriteFault
  readFails :: bool
  coercion :: Coercion

text \<open>The state that a run changes: the file system and the delays it has waited.\<close>

record World =
  fs :: FileSystem
  waited :: "nat list"

text \<open>\<open>cacheResponse\<close> catches whatever its body throws, logs it and returns.\<close>

definition cacheResponse :: "Env \<Rightarrow> jsval \<Rightarrow> FileSystem \<Rightarrow> FileSystem" where
  "cacheResponse env d fsys =
     (let (thrown, fsys1) =
            (if \<not> existsSync fsys CACHE_DIR
             then (if mkdirFails env
                   then (Some (Error ''EACCES: permission denied''), fsys)
                   else (None, mkdirSync fsys CACHE_DIR))
             else (None, fsys))
      in case thrown of
           Some e \<Rightarrow> fsys1
         | None \<Rightarrow>
             (let cacheData = JObj [(''data'', d), (''timestamp'', JStr (now env))]
              in snd (writeFileSync (writeFault env) fsys1 CACHE_FILE cacheData)))"

definition loadCachedData :: "Env \<Rightarrow> FileSystem \<Rightarrow> JsError + FetchResult" where
  "loadCachedData env fsys =
     (if \<not> existsSync fsys CACHE_FILE then Inl (Error ''No cached data available'')
      else
        (case files fsys CACHE_FILE of
           None \<Rightarrow> Inl (Error ''EISDIR: illegal operation on a directory, read'')
         | Some content \<Rightarrow>
             if readFails env then Inl (Error ''EIO: i/o error, read'')
             else
               (case content of
                  Unparseable \<Rightarrow> Inl (SyntaxError ''Unexpected end of JSON input'')
                | JsonText cacheData \<Rightarrow>
                    if js_nullish cacheData
                    then Inl (TypeError ''Cannot read properties of null or undefined'')
                    else if \<not> js_truthy (js_get cacheData ''data'')
                            \<or> \<not> js_truthy (js_get (js_get cacheData ''data'') ''standings'')
                    then Inl (Error ''Invalid cached data format'')
                    else
                      (case validateNHLApiResponse (coercion env) (js_get cacheData ''data'') of
                         Inl e \<Rightarrow> Inl e
                       | Inr validationResult \<Rightarrow>
                           if \<not> isValid validationResult
                           then Inl (Error ''Invalid cached data: validation failed'')
                           else Inr \<lparr> data = js_get cacheData ''data'',
                                      isStale = True,
                                      cacheTimestamp = js_get cacheData ''timestamp'' \<rparr>))))"

text \<open>
  The body of the \<open>try\<close> block of one attempt up to the validation: the validated
  payload, or the message of what was thrown (the \<open>catch\<close> keeps it as \<open>lastError\<close>).
\<close>

definition tryFetch :: "Env \<Rightarrow> nat \<Rightarrow> string + jsval" where
  "tryFetch env attempt =
     (case network env attempt of
        Rejected msg \<Rightarrow> Inl msg
      | Resolved response \<Rightarrow>
          if \<not> ok response then Inl (''HTTP error! status: '' @ show_nat (status response))
          else
            (case body response of
               BadBody msg \<Rightarrow> Inl msg
             | JsonBody d \<Rightarrow>
                 (case validateNHLApiResponse (coercion env) d of
                    Inl e \<Rightarrow> Inl (errorMessage e)
                  | Inr validationResult \<Rightarrow>
                      if \<not> isValid validationResult
                      then Inl ''Invalid API response: validation failed''
                      else Inr d)))"

text \<open>
  The retry loop from attempt \<open>attempt\<close> on: the payload of the first attempt that
  succeeds (cached on the way out), or the last error once \<open>MAX_RETRIES\<close> attempts have
  failed. Between two attempts the run waits \<open>INITIAL_RETRY_DELAY * 2^(attempt - 1)\<close>.
\<close>

function fetchLoop :: "Env \<Rightarrow> nat \<Rightarrow> World \<Rightarrow> string option \<Rightarrow> (string option + jsval) \<times> World" where
  "fetchLoop env attempt w lastError =
     (if attempt \<le> MAX_RETRIES
      then (case tryFetch env attempt of
              Inr d \<Rightarrow> (Inr d, w\<lparr> fs := cacheResponse env d (fs w) \<rparr>)
            | Inl msg \<Rightarrow>
                fetchLoop env (attempt + 1)
                  (if attempt < MAX_RETRIES
                   then w\<lparr> waited := waited w @ [INITIAL_RETRY_DELAY * 2 ^ (attempt - 1)] \<rparr>
                   else w)
                  (Some msg))
      else (Inl lastError, w))"
  by pat_completeness auto
termination
  by (relation "measure (\<lambda>(env, attempt, w, lastError). Suc MAX_RETRIES - attempt)") auto

declare fetchLoop.simps [simp del]

definition fetchNHLData :: "Env \<Rightarrow> World \<Rightarrow> (JsError + FetchResult) \<times> World" where
  "fetchNHLData env w =
     (case fetchLoop env 1 w None of
        (Inr d, w1) \<Rightarrow> (Inr \<lparr> data = d, isStale = False, cacheTimestamp = JUndefined \<rparr>, w1)
      | (Inl lastError, w1) \<Rightarrow>
          (case loadCachedData env (fs w1) of
             Inr cachedResult \<Rightarrow> (Inr cachedResult, w1)
           | Inl cacheError \<Rightarrow>
               (Inl (Error (''Failed to fetch NHL data after '' @ show_nat MAX_RETRIES
                            @ '' attempts and no cached data available. Last error: ''
                            @ (case lastError of Some msg \<Rightarrow> msg | None \<Rightarrow> ''undefined''))),
                w1)))"

text \<open>
  Sample environments: a network that is down, a file system that holds a cache entry
  written earlier, and one without a cache.
\<close>

definition networkDown :: "nat \<Rightarrow> FetchOutcome" where
  "networkDown attempt = Rejected ''fetch failed''"

definition quietEnv :: Env where
  "quietEnv = \<lparr> network = networkDown, now = ''2026-01-02T08:00:00.000Z'',
                 mkdirFails = False, writeFault = NoFault, readFails = False,
                 coercion = strictCoercion \<rparr>"

definition cachedEntry :: jsval where
  "cachedEntry = JObj [(''data'', uniformSnapshot),
                       (''timestamp'', JStr ''2026-01-01T08:00:00.000Z'')]"

definition cachedFs :: FileSystem where
  "cachedFs = \<lparr> dirs = {CACHE_DIR}, files = [CACHE_FILE \<mapsto> JsonText cachedEntry] \<rparr>"

definition emptyFs :: FileSystem where
  "emptyFs = \<lparr> dirs = {}, files = Map.empty \<rparr>"

text \<open>A payload passes validation when the validator returns a result that is valid.\<close>

definition passesValidation :: "Coercion \<Rightarrow> jsval \<Rightarrow> bool" where
  "passesValidation co d =
     (case validateNHLApiResponse co d of Inr r \<Rightarrow> isValid r | Inl e \<Rightarrow> False)"

text \<open>An environment in which the disk fills up while the cache file is being written.\<close>

definition fullDiskEnv :: Env where
  "fullDiskEnv = quietEnv\<lparr> writeFault := FailAfterOpen \<rparr>"

text \<open>
  A network whose first attempt fails and whose second attempt delivers the uniform
  snapshot, in an environment whose disk is full.
\<close>

definition recoveringNetwork :: "nat \<Rightarrow> FetchOutcome" where
  "recoveringNetwork attempt =
     (if attempt = 2
      then Resolved \<lparr> ok = True, status = 200, body = JsonBody uniformSnapshot \<rparr>
      else Rejected ''fetch failed'')"

definition recoveringEnv :: Env where
  "recoveringEnv = fullDiskEnv\<lparr> network := recoveringNetwork \<rparr>"

section \<open>Notions for the document properties\<close>






section \<open>Properties of the point percentage\<close>

lemma Math_round_bounds: "of_int (Math_round x) \<le> x + 1 / 2 \<and> x - 1 / 2 < of_int (Math_round x)"
  unfolding Math_round_def by linarith

lemma Math_round_mono: "x \<le> y \<Longrightarrow> Math_round x \<le> Math_round y"
  unfolding Math_round_def by (simp add: floor_mono)

lemma Math_round_of_int: "Math_round (of_int k) = k"
  unfolding Math_round_def by linarith

lemma calculatePointPercentage_range:
  assumes "0 \<le> pts" "pts \<le> gp * 2"
  shows "0 \<le> calculatePointPercentage pts gp \<and> calculatePointPercentage pts gp \<le> 1"
proof (cases "gp = 0")
  case True
  then show ?thesis by (simp add: calculatePointPercentage_def)
next
  case False
  with assms have gp: "0 < gp" by linarith
  define q :: rat where "q = of_int pts / of_int (gp * 2) * 1000"
  have q0: "0 \<le> q" using assms gp by (simp add: q_def)
  have "of_int pts / (of_int (gp * 2) :: rat) \<le> 1"
    using assms gp by (simp add: divide_le_eq)
  then have q1: "q \<le> 1000" by (simp add: q_def)
  have "Math_round 0 \<le> Math_round q" using q0 by (rule Math_round_mono)
  then have lo: "0 \<le> Math_round q" using Math_round_of_int [of 0] by simp
  have "Math_round q \<le> Math_round 1000" using q1 by (rule Math_round_mono)
  then have hi: "Math_round q \<le> 1000" using Math_round_of_int [of 1000] by simp
  have "calculatePointPercentage pts gp = of_int (Math_round q) / 1000"
    using False by (simp add: calculatePointPercentage_def q_def)
  moreover have "0 \<le> (of_int (Math_round q) :: rat) / 1000" using lo by simp
  moreover have "(of_int (Math_round q) :: rat) / 1000 \<le> 1" using hi by simp
  ultimately show ?thesis by simp
qed

text \<open>
  Claim C5. \<open>calculatePointPercentage\<close> returns 0 when no game has been played and
  otherwise the quotient \<open>points / (gamesPlayed * 2)\<close> rounded to three decimal places
  (a whole number of thousandths, at most half a thousandth away from the quotient,
  a half rounding up); the four sample values; and a result in [0, 1] on valid inputs.
\<close>

theorem calculatePointPercentage_spec:
  "calculatePointPercentage pts 0 = 0
   \<and> (gp \<noteq> 0 \<longrightarrow>
        calculatePointPercentage pts gp
          = of_int \<lfloor>of_int pts / of_int (gp * 2) * 1000 + 1 / (2::rat)\<rfloor> / 1000
        \<and> (\<exists>k::int. calculatePointPercentage pts gp * 1000 = of_int k)
        \<and> \<bar>calculatePointPercentage pts gp - of_int pts / of_int (gp * 2)\<bar> \<le> 1 / 2000)
   \<and> calculatePointPercentage 50 40 = 625 / 1000
   \<and> calculatePointPercentage 0 0 = 0
   \<and> calculatePointPercentage 33 40 = 413 / 1000
   \<and> calculatePointPercentage 164 82 = 1
   \<and> (0 \<le> pts \<and> pts \<le> gp * 2 \<longrightarrow>
        0 \<le> calculatePointPercentage pts gp \<and> calculatePointPercentage pts gp \<le> 1)"
proof -
  have zero: "calculatePointPercentage pts 0 = 0"
    by (simp add: calculatePointPercentage_def)
  have general: "calculatePointPercentage pts gp
          = of_int \<lfloor>of_int pts / of_int (gp * 2) * 1000 + 1 / (2::rat)\<rfloor> / 1000
        \<and> (\<exists>k::int. calculatePointPercentage pts gp * 1000 = of_int k)
        \<and> \<bar>calculatePointPercentage pts gp - of_int pts / of_int (gp * 2)\<bar> \<le> 1 / 2000"
    if nz: "gp \<noteq> 0"
  proof -
    define e :: rat where "e = of_int pts / of_int (gp * 2)"
    have eq: "calculatePointPercentage pts gp = of_int (Math_round (e * 1000)) / 1000"
      using nz by (simp add: calculatePointPercentage_def e_def)
    have b: "of_int (Math_round (e * 1000)) \<le> e * 1000 + 1 / 2
             \<and> e * 1000 - 1 / 2 < of_int (Math_round (e * 1000))"
      by (rule Math_round_bounds)
    define m :: rat where "m = of_int (Math_round (e * 1000))"
    have "m \<le> e * 1000 + 1 / 2" and "e * 1000 - 1 / 2 < m"
      using b by (simp_all add: m_def)
    then have "m / 1000 - e \<le> 1 / 2000" and "- (1 / 2000) \<le> m / 1000 - e"
      by linarith+
    then have "\<bar>m / 1000 - e\<bar> \<le> 1 / 2000"
      by (rule abs_leI [OF _ iffD1 [OF minus_le_iff]])
    then have near: "\<bar>of_int (Math_round (e * 1000)) / 1000 - e\<bar> \<le> 1 / 2000"
      unfolding m_def .
    have c1: "calculatePointPercentage pts gp
          = of_int \<lfloor>of_int pts / of_int (gp * 2) * 1000 + 1 / (2::rat)\<rfloor> / 1000"
      unfolding eq Math_round_def e_def ..
    have "calculatePointPercentage pts gp * 1000 = of_int (Math_round (e * 1000))"
      unfolding eq by simp
    then have c2: "\<exists>k::int. calculatePointPercentage pts gp * 1000 = of_int k" ..
    have c3: "\<bar>calculatePointPercentage pts gp - of_int pts / of_int (gp * 2)\<bar> \<le> 1 / 2000"
      using near unfolding eq e_def .
    show ?thesis
      using c1 c2 c3 by blast
  qed
  have s1: "calculatePointPercentage 50 40 = 625 / 1000"
  proof -
    have "Math_round (50 / 80 * 1000) = 625" unfolding Math_round_def by linarith
    then show ?thesis by (simp add: calculatePointPercentage_def)
  qed
  have s2: "calculatePointPercentage 0 0 = 0"
    by (simp add: calculatePointPercentage_def)
  have s3: "calculatePointPercentage 33 40 = 413 / 1000"
  proof -
    have "Math_round (33 / 80 * 1000) = 413" unfolding Math_round_def by linarith
    then show ?thesis by (simp add: calculatePointPercentage_def)
  qed
  have s4: "calculatePointPercentage 164 82 = 1"
  proof -
    have "Math_round (164 / 164 * 1000) = 1000" unfolding Math_round_def by linarith
    then show ?thesis by (simp add: calculatePointPercentage_def)
  qed
  show ?thesis
    using zero general s1 s2 s3 s4 calculatePointPercentage_range [of pts gp] by blast
qed

theorem calculatePointPercentage_spec_witness:
  "(40::int) \<noteq> 0 \<and> (0::int) \<le> 33 \<and> (33::int) \<le> 40 * 2
   \<and> calculatePointPercentage 33 40 = 413 / 1000
   \<and> \<bar>calculatePointPercentage 33 40 - 33 / 80\<bar> \<le> 1 / 2000
   \<and> 0 \<le> calculatePointPercentage 33 40 \<and> calculatePointPercentage 33 40 \<le> 1"
  using calculatePointPercentage_spec [of 33 40] by simp

section \<open>Properties of the projector\<close>

text \<open>
  Claim C2. For every team and threshold the projector returns the remaining games,
  remaining points, maximum possible points and points gap of the formulas, the status
  chosen in the order clinched, eliminated, competing, and for a competing team the
  required percentage \<open>pointsGap / remainingPoints * 100\<close>; with the three sample teams.
\<close>

theorem calculatePlayoffStats_spec:
  "remainingGames (calculatePlayoffStats t th) = max 0 (82 - gamesPlayed t)
   \<and> remainingPoints (calculatePlayoffStats t th)
       = remainingGames (calculatePlayoffStats t th) * 2
   \<and> maxPossiblePoints (calculatePlayoffStats t th)
       = points t + remainingPoints (calculatePlayoffStats t th)
   \<and> pointsGap (calculatePlayoffStats t th) = th - points t
   \<and> playoffStatus (calculatePlayoffStats t th)
       = (if points t \<ge> th then clinched
          else if maxPossiblePoints (calculatePlayoffStats t th) < th then eliminated
          else competing)
   \<and> requiredPointsPercentage (calculatePlayoffStats t th)
       = (if playoffStatus (calculatePlayoffStats t th) = competing
          then Some (of_int (pointsGap (calculatePlayoffStats t th))
                     / of_int (remainingPoints (calculatePlayoffStats t th)) * 100)
          else None)
   \<and> calculatePlayoffStats (t\<lparr>points := 95, gamesPlayed := 70\<rparr>) 95
       = \<lparr> remainingGames = 12, remainingPoints = 24, maxPossiblePoints = 119,
           pointsGap = 0, requiredPointsPercentage = None, playoffStatus = clinched \<rparr>
   \<and> playoffStatus (calculatePlayoffStats (t\<lparr>points := 60, gamesPlayed := 75\<rparr>) 95)
       = eliminated
   \<and> maxPossiblePoints (calculatePlayoffStats (t\<lparr>points := 60, gamesPlayed := 75\<rparr>) 95)
       = 74
   \<and> calculatePlayoffStats (t\<lparr>points := 80, gamesPlayed := 70\<rparr>) 95
       = \<lparr> remainingGames = 12, remainingPoints = 24, maxPossiblePoints = 104,
           pointsGap = 15, requiredPointsPercentage = Some (625 / 10),
           playoffStatus = competing \<rparr>"
  by (simp add: calculatePlayoffStats_def TOTAL_SEASON_GAMES_def POINTS_PER_GAME_def
        Let_def max_def)

text \<open>
  Claim C7. A competing status implies that points remain to be won, so the quotient
  of the required percentage never has a zero divisor, and the required percentage is
  present exactly for a competing team.
\<close>

theorem calculatePlayoffStats_competing:
  "(playoffStatus (calculatePlayoffStats t th) = competing
      \<longrightarrow> remainingPoints (calculatePlayoffStats t th) > 0)
   \<and> (requiredPointsPercentage (calculatePlayoffStats t th) \<noteq> None
      \<longleftrightarrow> playoffStatus (calculatePlayoffStats t th) = competing)"
  by (simp add: calculatePlayoffStats_def TOTAL_SEASON_GAMES_def POINTS_PER_GAME_def
        Let_def max_def)

theorem calculatePlayoffStats_competing_witness:
  "playoffStatus (calculatePlayoffStats
       \<lparr> teamId = 1, name = ''Test Team'', abbrev = ''TST'', wins = 35, losses = 25,
         otLosses = 10, points = 80, gamesPlayed = 70, pointPercentage = 571 / 1000,
         regulationWins = 30, regulationPlusOtWins = 33, division = ''Atlantic'',
         conference = ''Eastern'', isDivisionLeader = False, isWildCard = False,
         divisionRank = 0, conferenceRank = 0 \<rparr> 95) = competing
   \<and> remainingPoints (calculatePlayoffStats
       \<lparr> teamId = 1, name = ''Test Team'', abbrev = ''TST'', wins = 35, losses = 25,
         otLosses = 10, points = 80, gamesPlayed = 70, pointPercentage = 571 / 1000,
         regulationWins = 30, regulationPlusOtWins = 33, division = ''Atlantic'',
         conference = ''Eastern'', isDivisionLeader = False, isWildCard = False,
         divisionRank = 0, conferenceRank = 0 \<rparr> 95) = 24"
  using calculatePlayoffStats_competing
    [of "\<lparr> teamId = 1, name = ''Test Team'', abbrev = ''TST'', wins = 35, losses = 25,
         otLosses = 10, points = 80, gamesPlayed = 70, pointPercentage = 571 / 1000,
         regulationWins = 30, regulationPlusOtWins = 33, division = ''Atlantic'',
         conference = ''Eastern'', isDivisionLeader = False, isWildCard = False,
         divisionRank = 0, conferenceRank = 0 \<rparr>" 95]
  by (simp add: calculatePlayoffStats_def TOTAL_SEASON_GAMES_def POINTS_PER_GAME_def
        Let_def max_def)

section \<open>Properties of the ranking order\<close>

lemma compareStandings_le: "compareStandings a b \<le> 0 \<longleftrightarrow> standingKey a \<le> standingKey b"
  by (auto simp: compareStandings_def applyTiebreaker_def standingKey_def)

lemma Array_insert_key:
  "Array_insert compareStandings x ys = insort_key standingKey x ys"
  by (induction ys) (simp_all add: compareStandings_le)

lemma sortTeamsByStandings_sort_key: "sortTeamsByStandings ts = sort_key standingKey ts"
  by (induction ts) (simp_all add: sortTeamsByStandings_def Array_sort_def Array_insert_key)

lemma standingKey_le:
  "standingKey a \<le> standingKey b \<longleftrightarrow>
     pointPercentage a > pointPercentage b
     \<or> pointPercentage a = pointPercentage b
        \<and> (gamesPlayed a < gamesPlayed b
           \<or> gamesPlayed a = gamesPlayed b \<and> regulationWins a \<ge> regulationWins b)"
  by (auto simp: standingKey_def)

text \<open>
  Any list that is a permutation of the input, ordered by the comparison callback and
  keeps tied teams in input order is the list computed by the model of \<open>sort\<close>.
\<close>

lemma Array_sort_unique:
  assumes "mset ys = mset ts"
    and "sorted_wrt (\<lambda>a b. compareStandings a b \<le> 0) ys"
    and "\<And>a. filter (\<lambda>b. compareStandings a b = 0) ys
             = filter (\<lambda>b. compareStandings a b = 0) ts"
  shows "sortTeamsByStandings ts = ys"
proof -
  have tie: "compareStandings a b = 0 \<longleftrightarrow> standingKey a = standingKey b" for a b
    by (auto simp: compareStandings_def applyTiebreaker_def standingKey_def)
  have "sorted (map standingKey ys)"
    using assms(2) by (simp add: sorted_map compareStandings_le)
  moreover have "filter (\<lambda>x. standingKey k = standingKey x) ys
                 = filter (\<lambda>x. standingKey k = standingKey x) ts" for k
    using assms(3) [of k] by (simp add: tie)
  ultimately have "sort_key standingKey ts = ys"
    using assms(1) by (intro properties_for_sort_key) simp_all
  then show ?thesis by (simp add: sortTeamsByStandings_sort_key)
qed

text \<open>
  Claim C3. \<open>sortTeamsByStandings\<close> returns a permutation of its input in which an
  earlier team never has the lower point percentage; with equal percentage never more
  games played; with both equal never fewer regulation wins; and teams that agree in all
  three keep their input order, whatever their other fields are.
\<close>

theorem sortTeamsByStandings_spec:
  "mset (sortTeamsByStandings ts) = mset ts
   \<and> (\<forall>i j. i < j \<and> j < length ts \<longrightarrow>
         pointPercentage (sortTeamsByStandings ts ! i) \<ge> pointPercentage (sortTeamsByStandings ts ! j)
         \<and> (pointPercentage (sortTeamsByStandings ts ! i) = pointPercentage (sortTeamsByStandings ts ! j)
              \<longrightarrow> gamesPlayed (sortTeamsByStandings ts ! i) \<le> gamesPlayed (sortTeamsByStandings ts ! j)
                \<and> (gamesPlayed (sortTeamsByStandings ts ! i) = gamesPlayed (sortTeamsByStandings ts ! j)
                     \<longrightarrow> regulationWins (sortTeamsByStandings ts ! i)
                           \<ge> regulationWins (sortTeamsByStandings ts ! j))))
   \<and> (\<forall>p g r. filter (\<lambda>t. pointPercentage t = p \<and> gamesPlayed t = g \<and> regulationWins t = r)
                 (sortTeamsByStandings ts)
             = filter (\<lambda>t. pointPercentage t = p \<and> gamesPlayed t = g \<and> regulationWins t = r) ts)"
proof (intro conjI allI impI)
  show "mset (sortTeamsByStandings ts) = mset ts"
    by (simp add: sortTeamsByStandings_sort_key)
next
  fix p g r
  have "(\<lambda>t. pointPercentage t = p \<and> gamesPlayed t = g \<and> regulationWins t = r)
        = (\<lambda>t. standingKey t = (- p, g, - r))"
    by (auto simp: standingKey_def fun_eq_iff)
  then show "filter (\<lambda>t. pointPercentage t = p \<and> gamesPlayed t = g \<and> regulationWins t = r)
                 (sortTeamsByStandings ts)
             = filter (\<lambda>t. pointPercentage t = p \<and> gamesPlayed t = g \<and> regulationWins t = r) ts"
    by (simp add: sortTeamsByStandings_sort_key sort_key_stable)
next
  fix i j
  assume ij: "i < j \<and> j < length ts"
  let ?s = "sortTeamsByStandings ts"
  have "sorted (map standingKey ?s)"
    by (simp add: sortTeamsByStandings_sort_key)
  moreover have "j < length (map standingKey ?s)"
    using ij by (simp add: sortTeamsByStandings_sort_key)
  ultimately have "map standingKey ?s ! i \<le> map standingKey ?s ! j"
    using ij by (simp add: sorted_iff_nth_mono del: length_map)
  then have le: "standingKey (?s ! i) \<le> standingKey (?s ! j)"
    using ij by (simp add: sortTeamsByStandings_sort_key)
  show "pointPercentage (?s ! i) \<ge> pointPercentage (?s ! j)"
    using le by (auto simp: standingKey_le)
  show "gamesPlayed (?s ! i) \<le> gamesPlayed (?s ! j)"
    if "pointPercentage (?s ! i) = pointPercentage (?s ! j)"
    using le that by (auto simp: standingKey_le)
  show "regulationWins (?s ! i) \<ge> regulationWins (?s ! j)"
    if "pointPercentage (?s ! i) = pointPercentage (?s ! j)"
      and "gamesPlayed (?s ! i) = gamesPlayed (?s ! j)"
    using le that by (auto simp: standingKey_le)
qed

theorem sortTeamsByStandings_spec_witness:
  "(0::nat) < 1
   \<and> 1 < length [testTeam\<lparr>teamId := 1, gamesPlayed := 35\<rparr>,
                 testTeam\<lparr>teamId := 2, gamesPlayed := 30, regulationPlusOtWins := 1\<rparr>,
                 testTeam\<lparr>teamId := 3, gamesPlayed := 30, regulationPlusOtWins := 9\<rparr>,
                 testTeam\<lparr>teamId := 4, pointPercentage := 7 / 10\<rparr>]
   \<and> sortTeamsByStandings
        [testTeam\<lparr>teamId := 1, gamesPlayed := 35\<rparr>,
         testTeam\<lparr>teamId := 2, gamesPlayed := 30, regulationPlusOtWins := 1\<rparr>,
         testTeam\<lparr>teamId := 3, gamesPlayed := 30, regulationPlusOtWins := 9\<rparr>,
         testTeam\<lparr>teamId := 4, pointPercentage := 7 / 10\<rparr>]
      = [testTeam\<lparr>teamId := 4, pointPercentage := 7 / 10\<rparr>,
         testTeam\<lparr>teamId := 2, gamesPlayed := 30, regulationPlusOtWins := 1\<rparr>,
         testTeam\<lparr>teamId := 3, gamesPlayed := 30, regulationPlusOtWins := 9\<rparr>,
         testTeam\<lparr>teamId := 1, gamesPlayed := 35\<rparr>]
   \<and> pointPercentage (sortTeamsByStandings
        [testTeam\<lparr>teamId := 1, gamesPlayed := 35\<rparr>,
         testTeam\<lparr>teamId := 2, gamesPlayed := 30, regulationPlusOtWins := 1\<rparr>,
         testTeam\<lparr>teamId := 3, gamesPlayed := 30, regulationPlusOtWins := 9\<rparr>,
         testTeam\<lparr>teamId := 4, pointPercentage := 7 / 10\<rparr>] ! 0)
      \<ge> pointPercentage (sortTeamsByStandings
        [testTeam\<lparr>teamId := 1, gamesPlayed := 35\<rparr>,
         testTeam\<lparr>teamId := 2, gamesPlayed := 30, regulationPlusOtWins := 1\<rparr>,
         testTeam\<lparr>teamId := 3, gamesPlayed := 30, regulationPlusOtWins := 9\<rparr>,
         testTeam\<lparr>teamId := 4, pointPercentage := 7 / 10\<rparr>] ! 1)"
  using sortTeamsByStandings_spec
    [of "[testTeam\<lparr>teamId := 1, gamesPlayed := 35\<rparr>,
          testTeam\<lparr>teamId := 2, gamesPlayed := 30, regulationPlusOtWins := 1\<rparr>,
          testTeam\<lparr>teamId := 3, gamesPlayed := 30, regulationPlusOtWins := 9\<rparr>,
          testTeam\<lparr>teamId := 4, pointPercentage := 7 / 10\<rparr>]"]
  by (simp add: sortTeamsByStandings_def Array_sort_def compareStandings_def
        applyTiebreaker_def testTeam_def)

section \<open>Properties of the classifier\<close>

subsection \<open>Grouping\<close>

lemma map_of_pushTo:
  "map_of (pushTo k v m) = (map_of m)(k \<mapsto> (case map_of m k of None \<Rightarrow> [v] | Some vs \<Rightarrow> vs @ [v]))"
  by (induction m) (auto simp: fun_eq_iff)

lemma keys_pushTo: "fst ` set (pushTo k v m) = insert k (fst ` set m)"
proof (induction m)
  case Nil
  then show ?case by simp
next
  case (Cons e m)
  obtain k' vs where e: "e = (k', vs)" by (cases e)
  show ?case
    using Cons by (cases "k' = k") (simp_all add: e insert_commute)
qed

lemma distinct_pushTo: "distinct (map fst m) \<Longrightarrow> distinct (map fst (pushTo k v m))"
proof (induction m)
  case Nil
  then show ?case by simp
next
  case (Cons e m)
  obtain k' vs where e: "e = (k', vs)" by (cases e)
  show ?case
    using Cons keys_pushTo [of k v m] by (cases "k' = k") (simp_all add: e)
qed

lemma mset_pushTo:
  "mset (concat (map snd (pushTo k v m))) = add_mset v (mset (concat (map snd m)))"
  by (induction m) auto

lemma groupBy_snoc: "groupBy f (xs @ [x]) = pushTo (f x) x (groupBy f xs)"
  by (simp add: groupBy_def)

lemma distinct_groupBy: "distinct (map fst (groupBy f xs))"
  by (induction xs rule: rev_induct) (simp_all add: groupBy_snoc distinct_pushTo, simp add: groupBy_def)

lemma mset_groupBy: "mset (concat (map snd (groupBy f xs))) = mset xs"
  by (induction xs rule: rev_induct) (simp_all add: groupBy_snoc mset_pushTo, simp add: groupBy_def)

lemma filter_key_empty: "c \<notin> f ` set xs \<Longrightarrow> filter (\<lambda>x. f x = c) xs = []"
  by (induction xs) auto

lemma map_of_groupBy:
  "map_of (groupBy f xs) c
     = (if c \<in> f ` set xs then Some (filter (\<lambda>x. f x = c) xs) else None)"
proof (induction xs arbitrary: c rule: rev_induct)
  case Nil
  then show ?case by (simp add: groupBy_def)
next
  case (snoc x xs)
  show ?case
  proof (cases "c = f x")
    case True
    show ?thesis
    proof (cases "f x \<in> f ` set xs")
      case True
      then show ?thesis using \<open>c = f x\<close> snoc [of "f x"]
        by (simp add: groupBy_snoc map_of_pushTo)
    next
      case False
      then show ?thesis using \<open>c = f x\<close> snoc [of "f x"] filter_key_empty [OF False]
        by (simp add: groupBy_snoc map_of_pushTo)
    qed
  next
    case False
    then show ?thesis using snoc [of c]
      by (simp add: groupBy_snoc map_of_pushTo)
  qed
qed

lemma groupBy_member:
  assumes "(k, g) \<in> set (groupBy f xs)"
  shows "g = filter (\<lambda>x. f x = k) xs \<and> k \<in> f ` set xs"
proof -
  have "map_of (groupBy f xs) k = Some g"
    using assms distinct_groupBy [of f xs] by simp
  then show ?thesis
    by (simp add: map_of_groupBy split: if_splits)
qed

lemma filter_concat_groups:
  assumes "distinct (map fst m)"
    and "\<And>k g y. (k, g) \<in> set m \<Longrightarrow> y \<in> set (H g) \<Longrightarrow> f y = k"
  shows "filter (\<lambda>y. f y = c) (concat (map (\<lambda>(k, g). H g) m))
         = (case map_of m c of None \<Rightarrow> [] | Some g \<Rightarrow> H g)"
  using assms
proof (induction m)
  case Nil
  then show ?case by simp
next
  case (Cons e m)
  obtain k g where e: "e = (k, g)" by (cases e)
  have IH: "filter (\<lambda>y. f y = c) (concat (map (\<lambda>(k, g). H g) m))
         = (case map_of m c of None \<Rightarrow> [] | Some g \<Rightarrow> H g)"
    using Cons by auto
  have all: "\<And>y. y \<in> set (H g) \<Longrightarrow> f y = k"
    using Cons.prems(2) [of k g] by (simp add: e)
  show ?case
  proof (cases "k = c")
    case True
    have "c \<notin> fst ` set m" using Cons.prems(1) True by (simp add: e)
    then have "map_of m c = None" by (simp add: map_of_eq_None_iff)
    moreover have "filter (\<lambda>y. f y = c) (H g) = H g"
      using all True by (simp add: filter_id_conv)
    ultimately show ?thesis using IH True by (simp add: e)
  next
    case False
    have "filter (\<lambda>y. f y = c) (H g) = []"
      using all False by (auto simp: filter_empty_conv)
    then show ?thesis using IH False by (simp add: e)
  qed
qed

lemma regroup_filter:
  assumes "\<And>g. f ` set (H g) \<subseteq> f ` set g"
  shows "filter (\<lambda>y. f y = c) (regroup f H xs) = H (filter (\<lambda>x. f x = c) xs)"
proof -
  have pres: "f y = k" if "(k, g) \<in> set (groupBy f xs)" "y \<in> set (H g)" for k g y
  proof -
    have "g = filter (\<lambda>x. f x = k) xs" using that(1) by (simp add: groupBy_member)
    moreover have "f y \<in> f ` set g" using that(2) assms by blast
    ultimately show ?thesis by auto
  qed
  have "H [] = []" using assms [of "[]"] by simp
  moreover have "filter (\<lambda>x. f x = c) xs = []" if "c \<notin> f ` set xs"
    using that by (auto simp: filter_empty_conv)
  ultimately show ?thesis
    unfolding regroup_def
    by (subst filter_concat_groups [OF distinct_groupBy pres])
       (auto simp: map_of_groupBy)
qed

lemma regroup_mset:
  assumes "\<And>g. mset (map p (H g)) = mset (map p g)"
  shows "mset (map p (regroup f H xs)) = mset (map p xs)"
proof -
  have "mset (map p (concat (map (\<lambda>(k, g). H g) m))) = mset (map p (concat (map snd m)))"
    for m :: "(string \<times> 'a list) list"
    using assms by (induction m) (auto simp del: mset_map simp add: mset_map [symmetric])
  then have "mset (map p (regroup f H xs)) = mset (map p (concat (map snd (groupBy f xs))))"
    by (simp add: regroup_def)
  also have "\<dots> = image_mset p (mset (concat (map snd (groupBy f xs))))"
    by simp
  also have "\<dots> = mset (map p xs)"
    by (simp only: mset_groupBy mset_map)
  finally show ?thesis .
qed

subsection \<open>The passes as regroupings\<close>

lemma identifyDivisionLeaders_regroup:
  "identifyDivisionLeaders teams = regroup division rankDivision teams"
  by (simp add: identifyDivisionLeaders_def regroup_def rankDivision_def Let_def)

lemma identifyWildCards_regroup:
  "identifyWildCards teams = regroup conference flagWildCards teams"
  by (simp add: identifyWildCards_def regroup_def flagWildCards_def wildCardIdsOf_def Let_def)

lemma calculateConferenceRanks_regroup:
  "calculateConferenceRanks teams = regroup conference rankConference teams"
  by (simp add: calculateConferenceRanks_def regroup_def rankConference_def Let_def)

subsection \<open>Indexed rewriting of a list\<close>

lemma map_enumerate_proj:
  assumes "\<And>i t. p (U i t) = q t"
  shows "map p (map (\<lambda>(i, t). U i t) (enumerate n xs)) = map q xs"
  by (induction xs arbitrary: n) (simp_all add: assms)

lemma filter_enumerate_proj:
  assumes "\<And>i t. P (U i t) = P t" and "\<And>i t. p (U i t) = p t"
  shows "map p (filter P (map (\<lambda>(i, t). U i t) (enumerate n xs))) = map p (filter P xs)"
  by (induction xs arbitrary: n) (simp_all add: assms)

lemma enumerate_ranks:
  assumes "\<And>i t. r (U i t) = Suc i"
  shows "map r (map (\<lambda>(i, t). U i t) (enumerate n xs)) = [Suc n..<Suc (n + length xs)]"
proof -
  have "map r (map (\<lambda>(i, t). U i t) (enumerate n xs)) = map (Suc \<circ> fst) (enumerate n xs)"
    by (induction xs arbitrary: n) (simp_all add: assms)
  also have "\<dots> = map Suc (map fst (enumerate n xs))"
    by (simp only: map_map)
  also have "\<dots> = map Suc [n..<n + length xs]"
    by (simp only: map_fst_enumerate)
  also have "\<dots> = [Suc n..<Suc (n + length xs)]"
    by (rule map_Suc_upt)
  finally show ?thesis .
qed

lemma insort_key_map_inv:
  assumes "\<And>x. k (h x) = k x"
  shows "insort_key k (h x) (map h ys) = map h (insort_key k x ys)"
  by (induction ys) (simp_all add: assms)

lemma sort_key_map_inv:
  assumes "\<And>x. k (h x) = k x"
  shows "sort_key k (map h xs) = map h (sort_key k xs)"
  by (induction xs) (simp_all add: insort_key_map_inv assms)

subsection \<open>The division pass on one group\<close>

lemma length_rankDivision: "length (rankDivision g) = length g"
  by (simp add: rankDivision_def sortTeamsByStandings_sort_key)

lemma rankDivision_nth:
  assumes "i < length g"
  shows "rankDivision g ! i
         = (sortTeamsByStandings g ! i)\<lparr> isDivisionLeader := i < 3, divisionRank := i + 1 \<rparr>"
  using assms by (simp add: rankDivision_def sortTeamsByStandings_sort_key nth_enumerate_eq)

lemma rankDivision_ranks: "map divisionRank (rankDivision g) = [1..<Suc (length g)]"
  unfolding rankDivision_def
  by (subst enumerate_ranks) (simp_all add: sortTeamsByStandings_sort_key)

lemma rankDivision_division: "map division (rankDivision g) = map division (sortTeamsByStandings g)"
  unfolding rankDivision_def by (rule map_enumerate_proj) simp

lemma rankDivision_keys: "map standingKey (rankDivision g) = map standingKey (sortTeamsByStandings g)"
  unfolding rankDivision_def by (rule map_enumerate_proj) (simp add: standingKey_def)

lemma rankDivision_ids: "map teamId (rankDivision g) = map teamId (sortTeamsByStandings g)"
  unfolding rankDivision_def by (rule map_enumerate_proj) simp

lemma rankDivision_preserves_division: "division ` set (rankDivision g) \<subseteq> division ` set g"
proof -
  have "division ` set (rankDivision g) = set (map division (rankDivision g))" by simp
  also have "\<dots> = division ` set g"
    by (simp only: rankDivision_division) (simp add: sortTeamsByStandings_sort_key)
  finally show ?thesis by simp
qed

lemma rankDivision_leader:
  assumes "t \<in> set (rankDivision g)"
  shows "isDivisionLeader t \<longleftrightarrow> divisionRank t \<le> 3"
proof -
  obtain i where i: "i < length g" "t = rankDivision g ! i"
    using assms by (auto simp: in_set_conv_nth length_rankDivision)
  show ?thesis
    using i by (auto simp: rankDivision_nth)
qed

lemma rankDivision_order:
  assumes "t \<in> set (rankDivision g)" and "u \<in> set (rankDivision g)"
    and "divisionRank t < divisionRank u"
  shows "standingKey t \<le> standingKey u"
proof -
  obtain i where i: "i < length g" "t = rankDivision g ! i"
    using assms(1) by (auto simp: in_set_conv_nth length_rankDivision)
  obtain j where j: "j < length g" "u = rankDivision g ! j"
    using assms(2) by (auto simp: in_set_conv_nth length_rankDivision)
  have ij: "i < j" using assms(3) i j by (simp add: rankDivision_nth)
  have srt: "sorted (map standingKey (rankDivision g))"
    by (simp only: rankDivision_keys) (simp add: sortTeamsByStandings_sort_key)
  have "map standingKey (rankDivision g) ! i \<le> map standingKey (rankDivision g) ! j"
    using srt ij j(1) by (intro sorted_nth_mono) (simp_all add: length_rankDivision)
  then show ?thesis
    using i j ij by (simp add: length_rankDivision)
qed

subsection \<open>The two conference passes on one group\<close>

lemma flagWildCards_preserves_conference: "conference ` set (flagWildCards g) \<subseteq> conference ` set g"
  by (auto simp: flagWildCards_def)

lemma rankConference_conference:
  "map conference (rankConference g) = map conference (sortTeamsByStandings g)"
  unfolding rankConference_def by (rule map_enumerate_proj) simp

lemma rankConference_preserves_conference: "conference ` set (rankConference g) \<subseteq> conference ` set g"
proof -
  have "conference ` set (rankConference g) = set (map conference (rankConference g))" by simp
  also have "\<dots> = conference ` set g"
    by (simp only: rankConference_conference) (simp add: sortTeamsByStandings_sort_key)
  finally show ?thesis by simp
qed

lemma length_rankConference: "length (rankConference g) = length g"
  by (simp add: rankConference_def sortTeamsByStandings_sort_key)

lemma rankConference_ranks: "map conferenceRank (rankConference g) = [1..<Suc (length g)]"
  unfolding rankConference_def
  by (subst enumerate_ranks) (simp_all add: sortTeamsByStandings_sort_key)

lemma rankConference_keys:
  "map standingKey (rankConference g) = map standingKey (sortTeamsByStandings g)"
  unfolding rankConference_def by (rule map_enumerate_proj) (simp add: standingKey_def)

lemma rankConference_sorted: "sorted_wrt (\<lambda>a b. compareStandings a b \<le> 0) (rankConference g)"
proof -
  have "sorted (map standingKey (rankConference g))"
    by (simp only: rankConference_keys) (simp add: sortTeamsByStandings_sort_key)
  then show ?thesis
    by (simp add: sorted_map compareStandings_le)
qed

lemma afterDivisionPass_flagWildCards:
  "map afterDivisionPass (flagWildCards g) = map afterDivisionPass g"
  by (simp add: flagWildCards_def afterDivisionPass_def)

lemma afterDivisionPass_rankConference:
  "map afterDivisionPass (rankConference g) = map afterDivisionPass (sortTeamsByStandings g)"
  unfolding rankConference_def by (rule map_enumerate_proj) (simp add: afterDivisionPass_def)

lemma flagWildCards_ids: "map teamId (flagWildCards g) = map teamId g"
  by (simp add: flagWildCards_def)

lemma rankConference_ids: "map teamId (rankConference g) = map teamId (sortTeamsByStandings g)"
  unfolding rankConference_def by (rule map_enumerate_proj) simp

subsection \<open>The passes on the whole list\<close>

lemma identifyDivisionLeaders_division:
  "filter (\<lambda>t. division t = d) (identifyDivisionLeaders teams)
   = rankDivision (filter (\<lambda>t. division t = d) teams)"
  unfolding identifyDivisionLeaders_regroup
  by (rule regroup_filter) (rule rankDivision_preserves_division)

lemma identifyWildCards_conference:
  "filter (\<lambda>t. conference t = c) (identifyWildCards teams)
   = flagWildCards (filter (\<lambda>t. conference t = c) teams)"
  unfolding identifyWildCards_regroup
  by (rule regroup_filter) (rule flagWildCards_preserves_conference)

lemma calculateConferenceRanks_conference:
  "filter (\<lambda>t. conference t = c) (calculateConferenceRanks teams)
   = rankConference (filter (\<lambda>t. conference t = c) teams)"
  unfolding calculateConferenceRanks_regroup
  by (rule regroup_filter) (rule rankConference_preserves_conference)

lemma classifyTeams_conference:
  "filter (\<lambda>t. conference t = c) (classifyTeams teams)
   = rankConference (flagWildCards
       (filter (\<lambda>t. conference t = c) (identifyDivisionLeaders teams)))"
  by (simp add: classifyTeams_def calculateConferenceRanks_conference
        identifyWildCards_conference)

lemma classifyTeams_afterDivisionPass:
  "mset (map afterDivisionPass (classifyTeams teams))
   = mset (map afterDivisionPass (identifyDivisionLeaders teams))"
proof -
  have "mset (map afterDivisionPass (rankConference g)) = mset (map afterDivisionPass g)" for g
    by (simp only: afterDivisionPass_rankConference)
       (simp add: sortTeamsByStandings_sort_key)
  then have "mset (map afterDivisionPass (classifyTeams teams))
        = mset (map afterDivisionPass (identifyWildCards (identifyDivisionLeaders teams)))"
    unfolding classifyTeams_def calculateConferenceRanks_regroup
    by (rule regroup_mset)
  also have "\<dots> = mset (map afterDivisionPass (identifyDivisionLeaders teams))"
    unfolding identifyWildCards_regroup
    by (rule regroup_mset) (simp only: afterDivisionPass_flagWildCards)
  finally show ?thesis .
qed

lemma identifyDivisionLeaders_ids:
  "mset (map teamId (identifyDivisionLeaders teams)) = mset (map teamId teams)"
  unfolding identifyDivisionLeaders_regroup
  by (rule regroup_mset) (simp only: rankDivision_ids, simp add: sortTeamsByStandings_sort_key)

lemma classifyTeams_ids:
  "mset (map teamId (classifyTeams teams)) = mset (map teamId teams)"
proof -
  have "teamId \<circ> afterDivisionPass = teamId"
    by (simp add: fun_eq_iff afterDivisionPass_def)
  then have "mset (map teamId xs) = image_mset teamId (mset (map afterDivisionPass xs))" for xs
    by (simp add: multiset.map_comp)
  then show ?thesis
    using classifyTeams_afterDivisionPass [of teams] identifyDivisionLeaders_ids [of teams]
    by simp
qed

lemma classifyTeams_division:
  "mset (map afterDivisionPass (filter (\<lambda>t. division t = d) (classifyTeams teams)))
   = mset (map afterDivisionPass (rankDivision (filter (\<lambda>t. division t = d) teams)))"
proof -
  have swap: "mset (map afterDivisionPass (filter (\<lambda>t. division t = d) xs))
        = filter_mset (\<lambda>t. division t = d) (mset (map afterDivisionPass xs))" for xs
    by (induction xs) (simp_all add: afterDivisionPass_def)
  show ?thesis
    by (simp only: swap classifyTeams_afterDivisionPass)
       (simp only: swap [symmetric] identifyDivisionLeaders_division)
qed

lemma classifyTeams_division_member:
  assumes "t \<in> set (classifyTeams teams)"
  shows "\<exists>t' \<in> set (rankDivision (filter (\<lambda>u. division u = division t) teams)).
           afterDivisionPass t' = afterDivisionPass t"
proof -
  let ?d = "division t"
  have "t \<in> set (filter (\<lambda>u. division u = ?d) (classifyTeams teams))"
    using assms by simp
  then have "afterDivisionPass t
      \<in># mset (map afterDivisionPass (filter (\<lambda>u. division u = ?d) (classifyTeams teams)))"
    by (simp del: mset_filter mset_map)
  then have "afterDivisionPass t
      \<in># mset (map afterDivisionPass (rankDivision (filter (\<lambda>u. division u = ?d) teams)))"
    by (simp only: classifyTeams_division)
  then show ?thesis
    by (auto simp: image_iff)
qed

subsection \<open>Wild cards\<close>

lemma rankConference_member:
  assumes "t \<in> set (rankConference h)"
  shows "\<exists>s \<in> set h. \<exists>i. t = s\<lparr> conferenceRank := i \<rparr>"
proof -
  obtain i s where "(i, s) \<in> set (enumerate 0 (sortTeamsByStandings h))"
    and t: "t = s\<lparr> conferenceRank := i + 1 \<rparr>"
    using assms by (auto simp: rankConference_def)
  then have "s \<in> set (sortTeamsByStandings h)"
    by (auto simp: in_set_enumerate_eq)
  then have "s \<in> set h"
    by (simp add: sortTeamsByStandings_sort_key)
  then show ?thesis using t by blast
qed

lemma wildCard_flag:
  assumes "t \<in> set (rankConference (flagWildCards g))"
  shows "isWildCard t \<longleftrightarrow> teamId t \<in> wildCardIdsOf g"
proof -
  obtain s i where s: "s \<in> set (flagWildCards g)" and t: "t = s\<lparr> conferenceRank := i \<rparr>"
    using rankConference_member [OF assms] by blast
  have "isWildCard s \<longleftrightarrow> teamId s \<in> wildCardIdsOf g"
    using s by (auto simp: flagWildCards_def)
  then show ?thesis by (simp add: t)
qed

lemma nonLeader_ids:
  "map teamId (filter (\<lambda>u. \<not> isDivisionLeader u) (rankConference (flagWildCards g)))
   = map teamId (sortTeamsByStandings (filter (\<lambda>u. \<not> isDivisionLeader u) g))"
proof -
  let ?nl = "\<lambda>u. \<not> isDivisionLeader u"
  let ?fl = "\<lambda>team. team\<lparr> isWildCard := teamId team \<in> wildCardIdsOf g \<rparr>"
  have key: "standingKey (?fl x) = standingKey x" for x
    by (simp add: standingKey_def)
  have drop: "map teamId (filter ?nl (map ?fl xs)) = map teamId (filter ?nl xs)" for xs
    by (induction xs) simp_all
  have "map teamId (filter ?nl (rankConference (flagWildCards g)))
        = map teamId (filter ?nl (sortTeamsByStandings (flagWildCards g)))"
    unfolding rankConference_def by (rule filter_enumerate_proj) simp_all
  also have "sortTeamsByStandings (flagWildCards g) = map ?fl (sortTeamsByStandings g)"
    unfolding flagWildCards_def sortTeamsByStandings_sort_key
    by (rule sort_key_map_inv) (rule key)
  also have "map teamId (filter ?nl (map ?fl (sortTeamsByStandings g)))
        = map teamId (filter ?nl (sortTeamsByStandings g))"
    by (rule drop) 
  also have "filter ?nl (sortTeamsByStandings g) = sortTeamsByStandings (filter ?nl g)"
    by (simp add: sortTeamsByStandings_sort_key filter_sort)
  finally show ?thesis .
qed

lemma wildCard_top2:
  assumes dist: "distinct (map teamId (rankConference (flagWildCards g)))"
    and t: "t \<in> set (rankConference (flagWildCards g))"
  shows "isWildCard t \<longleftrightarrow>
         t \<in> set (take 2 (filter (\<lambda>u. \<not> isDivisionLeader u) (rankConference (flagWildCards g))))"
proof -
  let ?F = "rankConference (flagWildCards g)"
  let ?top = "take 2 (filter (\<lambda>u. \<not> isDivisionLeader u) ?F)"
  have "wildCardIdsOf g = set (take 2 (map teamId (filter (\<lambda>u. \<not> isDivisionLeader u) ?F)))"
    by (simp only: nonLeader_ids wildCardIdsOf_def take_map)
  then have ids: "wildCardIdsOf g = teamId ` set ?top"
    by (simp add: take_map)
  have sub: "set ?top \<subseteq> set ?F"
    by (meson filter_is_subset set_take_subset subset_trans)
  have inj: "inj_on teamId (set ?F)"
    using dist by (simp add: distinct_map)
  have "teamId t \<in> teamId ` set ?top \<longleftrightarrow> t \<in> set ?top"
    using inj sub t by (meson inj_on_image_mem_iff)
  then show ?thesis
    using wildCard_flag [OF t] ids by simp
qed

subsection \<open>The classification as a whole\<close>

text \<open>
  Claim C4. After the three classification passes on teams with distinct ids (the
  transformer numbers them 1..N): no team is lost; in every division the division
  ranks are a permutation of 1..N and a team of lower rank never stands after a team of
  higher rank in the same division; in every conference the conference's teams carry
  the ranks 1..N in order and are in standing order; a team is a division leader
  exactly when its division rank is at most 3; and a team is a wild card exactly when
  it is one of the first two teams that are not division leaders in its conference's
  standing order.
\<close>

theorem classifyTeams_spec:
  assumes "distinct (map teamId teams)"
  shows "mset (map teamId (classifyTeams teams)) = mset (map teamId teams)
   \<and> mset (map divisionRank (filter (\<lambda>t. division t = d) (classifyTeams teams)))
       = mset [1..<Suc (length (filter (\<lambda>t. division t = d) (classifyTeams teams)))]
   \<and> (\<forall>t \<in> set (classifyTeams teams). \<forall>u \<in> set (classifyTeams teams).
         division t = division u \<and> divisionRank t < divisionRank u
           \<longrightarrow> compareStandings t u \<le> 0)
   \<and> map conferenceRank (filter (\<lambda>t. conference t = c) (classifyTeams teams))
       = [1..<Suc (length (filter (\<lambda>t. conference t = c) (classifyTeams teams)))]
   \<and> sorted_wrt (\<lambda>a b. compareStandings a b \<le> 0)
        (filter (\<lambda>t. conference t = c) (classifyTeams teams))
   \<and> (\<forall>t \<in> set (classifyTeams teams). isDivisionLeader t \<longleftrightarrow> divisionRank t \<le> 3)
   \<and> (\<forall>t \<in> set (classifyTeams teams).
         isWildCard t \<longleftrightarrow>
         t \<in> set (take 2 (filter (\<lambda>u. \<not> isDivisionLeader u)
                   (filter (\<lambda>u. conference u = conference t) (classifyTeams teams)))))"
proof -
  let ?F = "classifyTeams teams"
  have ids: "mset (map teamId ?F) = mset (map teamId teams)"
    by (rule classifyTeams_ids)
  have dF: "distinct (map teamId ?F)"
    using assms ids by (metis mset_eq_imp_distinct_iff)

  have rk: "divisionRank \<circ> afterDivisionPass = divisionRank"
    by (simp add: fun_eq_iff afterDivisionPass_def)
  have core: "mset (map divisionRank xs) = image_mset divisionRank (mset (map afterDivisionPass xs))"
    for xs
    using rk by (simp add: multiset.map_comp)
  let ?Fd = "filter (\<lambda>t. division t = d) ?F"
  let ?Dd = "rankDivision (filter (\<lambda>t. division t = d) teams)"
  have len: "length ?Fd = length ?Dd"
    using classifyTeams_division [of d teams] by (metis length_map size_mset)
  have "mset (map divisionRank ?Fd) = mset (map divisionRank ?Dd)"
    by (simp only: core classifyTeams_division)
  also have "\<dots> = mset [1..<Suc (length ?Dd)]"
    by (simp only: rankDivision_ranks length_rankDivision)
  finally have perm: "mset (map divisionRank ?Fd) = mset [1..<Suc (length ?Fd)]"
    by (simp only: len)

  have order: "compareStandings t u \<le> 0"
    if t: "t \<in> set ?F" and u: "u \<in> set ?F"
      and tu: "division t = division u \<and> divisionRank t < divisionRank u" for t u
  proof -
    obtain t' where t': "t' \<in> set (rankDivision (filter (\<lambda>x. division x = division t) teams))"
      "afterDivisionPass t' = afterDivisionPass t"
      using classifyTeams_division_member [OF t] by blast
    obtain u' where u': "u' \<in> set (rankDivision (filter (\<lambda>x. division x = division t) teams))"
      "afterDivisionPass u' = afterDivisionPass u"
      using classifyTeams_division_member [OF u] tu by auto
    have same: "divisionRank a = divisionRank b \<and> standingKey a = standingKey b"
      if "afterDivisionPass a = afterDivisionPass b" for a b
    proof -
      have "divisionRank (afterDivisionPass a) = divisionRank (afterDivisionPass b)"
        and "standingKey (afterDivisionPass a) = standingKey (afterDivisionPass b)"
        using that by simp_all
      then show ?thesis by (simp add: afterDivisionPass_def standingKey_def)
    qed
    have "divisionRank t' < divisionRank u'"
      using tu same [OF t'(2)] same [OF u'(2)] by simp
    then have "standingKey t' \<le> standingKey u'"
      using t'(1) u'(1) by (rule rankDivision_order [rotated 2])
    then have "standingKey t \<le> standingKey u"
      using same [OF t'(2)] same [OF u'(2)] by simp
    then show ?thesis by (simp add: compareStandings_le)
  qed

  have crank: "map conferenceRank (filter (\<lambda>t. conference t = c) ?F)
       = [1..<Suc (length (filter (\<lambda>t. conference t = c) ?F))]"
    by (simp only: classifyTeams_conference rankConference_ranks length_rankConference)
  have csort: "sorted_wrt (\<lambda>a b. compareStandings a b \<le> 0) (filter (\<lambda>t. conference t = c) ?F)"
    by (simp only: classifyTeams_conference rankConference_sorted)

  have leader: "isDivisionLeader t \<longleftrightarrow> divisionRank t \<le> 3" if t: "t \<in> set ?F" for t
  proof -
    obtain t' where t': "t' \<in> set (rankDivision (filter (\<lambda>x. division x = division t) teams))"
      "afterDivisionPass t' = afterDivisionPass t"
      using classifyTeams_division_member [OF t] by blast
    have "isDivisionLeader (afterDivisionPass t') = isDivisionLeader (afterDivisionPass t)"
      and "divisionRank (afterDivisionPass t') = divisionRank (afterDivisionPass t)"
      using t'(2) by simp_all
    then have "isDivisionLeader t' = isDivisionLeader t" and "divisionRank t' = divisionRank t"
      by (simp_all add: afterDivisionPass_def)
    then show ?thesis using rankDivision_leader [OF t'(1)] by simp
  qed

  have wild: "isWildCard t \<longleftrightarrow>
         t \<in> set (take 2 (filter (\<lambda>u. \<not> isDivisionLeader u)
                   (filter (\<lambda>u. conference u = conference t) ?F)))"
    if t: "t \<in> set ?F" for t
  proof -
    let ?g = "filter (\<lambda>u. conference u = conference t) (identifyDivisionLeaders teams)"
    have eq: "filter (\<lambda>u. conference u = conference t) ?F = rankConference (flagWildCards ?g)"
      by (rule classifyTeams_conference)
    have "distinct (map teamId (filter (\<lambda>u. conference u = conference t) ?F))"
      using dF by (rule distinct_map_filter)
    then have d: "distinct (map teamId (rankConference (flagWildCards ?g)))"
      by (simp only: eq)
    have "t \<in> set (filter (\<lambda>u. conference u = conference t) ?F)"
      using t by simp
    then have m: "t \<in> set (rankConference (flagWildCards ?g))"
      by (simp only: eq)
    show ?thesis
      using wildCard_top2 [OF d m] by (simp only: eq)
  qed

  show ?thesis
    using ids perm order crank csort leader wild by blast
qed

theorem classifyTeams_spec_witness:
  "distinct (map teamId sampleTeams)
   \<and> map (\<lambda>t. (teamId t, divisionRank t, isDivisionLeader t, isWildCard t, conferenceRank t))
        (classifyTeams sampleTeams)
      = [(1, 1, True, False, 1), (5, 1, True, False, 2), (2, 2, True, False, 3),
         (6, 2, True, False, 4), (3, 3, True, False, 5), (7, 3, True, False, 6),
         (4, 4, False, True, 7), (8, 4, False, True, 8)]
   \<and> mset (map divisionRank (filter (\<lambda>t. division t = ''Atlantic'') (classifyTeams sampleTeams)))
       = mset [1..<Suc (length (filter (\<lambda>t. division t = ''Atlantic'') (classifyTeams sampleTeams)))]
   \<and> map conferenceRank (filter (\<lambda>t. conference t = ''Eastern'') (classifyTeams sampleTeams))
       = [1..<Suc (length (filter (\<lambda>t. conference t = ''Eastern'') (classifyTeams sampleTeams)))]"
proof -
  have d: "distinct (map teamId sampleTeams)"
    by (simp add: sampleTeams_def createTeam_def testTeam_def)
  have e: "map (\<lambda>t. (teamId t, divisionRank t, isDivisionLeader t, isWildCard t, conferenceRank t))
        (classifyTeams sampleTeams)
      = [(1, 1, True, False, 1), (5, 1, True, False, 2), (2, 2, True, False, 3),
         (6, 2, True, False, 4), (3, 3, True, False, 5), (7, 3, True, False, 6),
         (4, 4, False, True, 7), (8, 4, False, True, 8)]"
    by code_simp
  show ?thesis
    using d e classifyTeams_spec [OF d, of "''Atlantic''" "''Eastern''"] by blast
qed

section \<open>Properties of the validator\<close>

lemma validateEntries_nth:
  assumes "validateEntries co ts i0 = Inr es" and "k < length ts"
  shows "\<exists>tes. validateTeamEntry co (ts ! k) (i0 + k) = Inr tes \<and> set tes \<subseteq> set es"
  using assms
proof (induction ts arbitrary: i0 es k)
  case Nil
  then show ?case by simp
next
  case (Cons t ts)
  from Cons.prems(1) obtain tes rest where
    t: "validateTeamEntry co t i0 = Inr tes" and
    r: "validateEntries co ts (Suc i0) = Inr rest" and
    es: "es = tes @ rest"
    by (auto split: sum.splits)
  show ?case
  proof (cases k)
    case 0
    then show ?thesis using t es by simp
  next
    case (Suc k')
    then have "k' < length ts" using Cons.prems(2) by simp
    from Cons.IH [OF r this] obtain tes' where
      "validateTeamEntry co (ts ! k') (Suc i0 + k') = Inr tes'" "set tes' \<subseteq> set rest"
      by blast
    then show ?thesis using Suc es by auto
  qed
qed

text \<open>The validator reaches the entries only through the array branch.\<close>

lemma validateNHLApiResponse_array:
  assumes "js_get raw ''standings'' = JArr teams"
  shows "validateNHLApiResponse co raw =
     (case validateEntries co teams 0 of
        Inl e \<Rightarrow> Inl e
      | Inr teamErrors \<Rightarrow>
          Inr \<lparr> isValid = ((if length teams \<noteq> EXPECTED_TEAM_COUNT
                             then [\<lparr> field = ''standings.length'', message = UnexpectedTeamCount \<rparr>]
                             else []) @ teamErrors = []),
                errors = (if length teams \<noteq> EXPECTED_TEAM_COUNT
                          then [\<lparr> field = ''standings.length'', message = UnexpectedTeamCount \<rparr>]
                          else []) @ teamErrors \<rparr>)"
proof -
  obtain kvs where d: "raw = JObj kvs"
    using assms by (cases raw) simp_all
  show ?thesis
    unfolding validateNHLApiResponse_def using assms by (simp add: d Let_def)
qed

lemma validateNHLApiResponse_not_array:
  assumes "\<And>teams. js_get raw ''standings'' \<noteq> JArr teams"
    and "validateNHLApiResponse co raw = Inr r"
  shows "\<not> isValid r"
proof (cases "js_truthy raw \<and> js_truthy (js_get raw ''standings'')")
  case True
  then show ?thesis
    using assms unfolding validateNHLApiResponse_def
    by (cases "js_get raw ''standings''") auto
next
  case False
  then show ?thesis
    using assms(2) unfolding validateNHLApiResponse_def
    by (auto split: if_splits)
qed

lemma validateNHLApiResponse_valid_teams:
  assumes "validateNHLApiResponse co raw = Inr r" and "isValid r"
  shows "length (snapshotTeams raw) = EXPECTED_TEAM_COUNT
         \<and> validateEntries co (snapshotTeams raw) 0 = Inr []"
proof -
  obtain teams where st: "js_get raw ''standings'' = JArr teams"
    using validateNHLApiResponse_not_array [OF _ assms(1)] assms(2) by blast
  have sn: "snapshotTeams raw = teams"
    using st by (simp add: snapshotTeams_def)
  show ?thesis
  proof (cases "validateEntries co teams 0")
    case (Inl e)
    then show ?thesis
      using assms(1) by (simp add: validateNHLApiResponse_array [OF st])
  next
    case (Inr es)
    then have "r = \<lparr> isValid = ((if length teams \<noteq> EXPECTED_TEAM_COUNT
                             then [\<lparr> field = ''standings.length'', message = UnexpectedTeamCount \<rparr>]
                             else []) @ es = []),
                errors = (if length teams \<noteq> EXPECTED_TEAM_COUNT
                          then [\<lparr> field = ''standings.length'', message = UnexpectedTeamCount \<rparr>]
                          else []) @ es \<rparr>"
      using assms(1) by (simp add: validateNHLApiResponse_array [OF st])
    then have "(if length teams \<noteq> EXPECTED_TEAM_COUNT
                then [\<lparr> field = ''standings.length'', message = UnexpectedTeamCount \<rparr>]
                else []) @ es = []"
      using assms(2) by simp
    then have "length teams = EXPECTED_TEAM_COUNT" and "es = []"
      by (simp_all split: if_splits)
    then show ?thesis using Inr sn by simp
  qed
qed



lemma validateTeamEntry_nullish:
  "js_nullish team \<Longrightarrow> \<exists>e. validateTeamEntry co team i = Inl e"
  by (simp add: validateTeamEntry_def)

lemma validateTeamEntry_missing:
  assumes "\<not> js_nullish team"
    and "missingFieldErrors (''standings['' @ show_nat i @ '']'') team \<noteq> []"
  shows "validateTeamEntry co team i
         = Inr (missingFieldErrors (''standings['' @ show_nat i @ '']'') team)"
  using assms by (simp add: validateTeamEntry_def Let_def)

lemma validateTeamEntry_checks:
  assumes "\<not> js_nullish team"
    and "missingFieldErrors (''standings['' @ show_nat i @ '']'') team = []"
  shows "validateTeamEntry co team i
         = Inr (concat (map (numericErrors (''standings['' @ show_nat i @ '']'') team)
                   numericValidations)
              @ gamesPlayedErrors co (''standings['' @ show_nat i @ '']'') team
              @ pointsErrors co (''standings['' @ show_nat i @ '']'') team
              @ regulationWinsErrors co (''standings['' @ show_nat i @ '']'') team
              @ divisionNameErrors (''standings['' @ show_nat i @ '']'') team
              @ conferenceNameErrors (''standings['' @ show_nat i @ '']'') team
              @ defaultStringErrors (''standings['' @ show_nat i @ '']'') team ''teamName''
              @ defaultStringErrors (''standings['' @ show_nat i @ '']'') team ''teamAbbrev'')"
  using assms by (simp add: validateTeamEntry_def Let_def)


lemma validateTeamEntry_clean:
  assumes "validateTeamEntry co team i = Inr []"
  shows "Array_includes VALID_DIVISIONS (js_get team ''divisionName'')
         \<and> Array_includes VALID_CONFERENCES (js_get team ''conferenceName'')"
proof -
  have nn: "\<not> js_nullish team"
    using assms(1) validateTeamEntry_nullish [of team co i] by auto
  have m: "missingFieldErrors (''standings['' @ show_nat i @ '']'') team = []"
    using assms validateTeamEntry_missing [OF nn, of i co] by auto
  have "divisionNameErrors (''standings['' @ show_nat i @ '']'') team = []"
    and "conferenceNameErrors (''standings['' @ show_nat i @ '']'') team = []"
    using assms unfolding validateTeamEntry_checks [OF nn m] by simp_all
  then show ?thesis
    by (simp_all add: divisionNameErrors_def conferenceNameErrors_def split: if_splits)
qed

lemma Array_includes_JStr: "Array_includes names v \<Longrightarrow> \<exists>s \<in> set names. v = JStr s"
  by (cases v) simp_all

lemma countOf_countUp: "countOf (countUp m k') k = countOf m k + (if k = k' then 1 else 0)"
  by (simp add: countOf_def countUp_def)

lemma countOf_fold:
  "countOf (fold (\<lambda>t counts. countUp counts (f t)) xs m) k
   = countOf m k + length (filter (\<lambda>t. f t = k) xs)"
  by (induction xs arbitrary: m) (auto simp: countOf_countUp)

lemma countOf_empty: "countOf Map.empty k = 0"
  by (simp add: countOf_def)

lemma validateDivisionDistribution_isValid:
  "isValid (validateDivisionDistribution raw)
   \<longleftrightarrow> (\<forall>d \<in> set VALID_DIVISIONS.
          length (filter (\<lambda>t. divisionName t = d) (standings raw)) = 8)"
  by (auto simp: validateDivisionDistribution_def Let_def concat_eq_Nil_conv
        countOf_fold countOf_empty)

lemma validateConferenceDistribution_isValid:
  "isValid (validateConferenceDistribution raw)
   \<longleftrightarrow> (\<forall>c \<in> set VALID_CONFERENCES.
          length (filter (\<lambda>t. conferenceName t = c) (standings raw)) = 16)"
  by (auto simp: validateConferenceDistribution_def Let_def concat_eq_Nil_conv
        countOf_fold countOf_empty)

lemma uniformResponse_rejected:
  "\<not> isValid (validateDivisionDistribution uniformResponse)
   \<and> \<not> isValid (validateConferenceDistribution uniformResponse)"
  by (simp add: validateDivisionDistribution_isValid validateConferenceDistribution_isValid
        uniformResponse_def createValidEntry_def VALID_DIVISIONS_def VALID_CONFERENCES_def)


lemma validateEntries_clean_nth:
  assumes clean: "validateEntries co ts 0 = Inr []" and k: "k < length ts"
  shows "validateTeamEntry co (ts ! k) k = Inr []"
proof -
  obtain tes where a: "validateTeamEntry co (ts ! k) (0 + k) = Inr tes" and b: "set tes \<subseteq> set []"
    using validateEntries_nth [OF clean k] by blast
  have "tes = []" using b by simp
  then show ?thesis using a by simp
qed

lemma count_partition4:
  assumes "\<forall>t \<in> set ts. g t = a \<or> g t = b \<or> g t = c \<or> g t = d"
    and "distinct [a, b, c, d]"
  shows "length (filter (\<lambda>t. g t = a) ts) + length (filter (\<lambda>t. g t = b) ts)
         + length (filter (\<lambda>t. g t = c) ts) + length (filter (\<lambda>t. g t = d) ts) = length ts"
  using assms by (induction ts) auto

lemma count_partition2:
  assumes "\<forall>t \<in> set ts. g t = a \<or> g t = b" and "a \<noteq> b"
  shows "length (filter (\<lambda>t. g t = a) ts) + length (filter (\<lambda>t. g t = b) ts) = length ts"
  using assms by (induction ts) auto

text \<open>
  Claim C1, as amended. An accepted snapshot has exactly 32 teams, each of which names
  one of the four known divisions and one of the two known conferences, so that the
  four division counts add up to 32 and so do the two conference counts. How the 32
  teams are spread over the divisions and conferences is not checked by
  \<open>validateNHLApiResponse\<close>; that is left to \<open>validateDivisionDistribution\<close> and
  \<open>validateConferenceDistribution\<close>.
\<close>

theorem validateNHLApiResponse_accepted:
  assumes "validateNHLApiResponse co raw = Inr r" and "isValid r"
  shows "length (snapshotTeams raw) = 32
   \<and> (\<forall>team \<in> set (snapshotTeams raw).
         (\<exists>d \<in> set VALID_DIVISIONS. js_get team ''divisionName'' = JStr d)
         \<and> (\<exists>c \<in> set VALID_CONFERENCES. js_get team ''conferenceName'' = JStr c))
   \<and> teamsInDivision raw ''Atlantic'' + teamsInDivision raw ''Metropolitan''
       + teamsInDivision raw ''Central'' + teamsInDivision raw ''Pacific'' = 32
   \<and> teamsInConference raw ''Eastern'' + teamsInConference raw ''Western'' = 32"
proof -
  let ?ts = "snapshotTeams raw"
  have len: "length ?ts = 32" and clean: "validateEntries co ?ts 0 = Inr []"
    using validateNHLApiResponse_valid_teams [OF assms] by (simp_all add: EXPECTED_TEAM_COUNT_def)
  have each: "Array_includes VALID_DIVISIONS (js_get team ''divisionName'')
              \<and> Array_includes VALID_CONFERENCES (js_get team ''conferenceName'')"
    if mem: "team \<in> set ?ts" for team
  proof -
    obtain k where k: "k < length ?ts" and tk: "?ts ! k = team"
      using mem by (auto simp add: in_set_conv_nth)
    have "validateTeamEntry co (?ts ! k) k = Inr []"
      using clean k by (rule validateEntries_clean_nth)
    then have "validateTeamEntry co team k = Inr []"
      by (simp only: tk)
    then show ?thesis by (rule validateTeamEntry_clean)
  qed
  have names: "(\<exists>d \<in> set VALID_DIVISIONS. js_get team ''divisionName'' = JStr d)
         \<and> (\<exists>c \<in> set VALID_CONFERENCES. js_get team ''conferenceName'' = JStr c)"
    if "team \<in> set ?ts" for team
    using each [OF that] by (blast dest: Array_includes_JStr)
  have div4: "js_get t ''divisionName'' = JStr ''Atlantic''
          \<or> js_get t ''divisionName'' = JStr ''Metropolitan''
          \<or> js_get t ''divisionName'' = JStr ''Central''
          \<or> js_get t ''divisionName'' = JStr ''Pacific''" if mem: "t \<in> set ?ts" for t
  proof -
    obtain d where "d \<in> set VALID_DIVISIONS" and "js_get t ''divisionName'' = JStr d"
      using names [OF mem] by blast
    then show ?thesis by (auto simp: VALID_DIVISIONS_def)
  qed
  have conf2: "js_get t ''conferenceName'' = JStr ''Eastern''
          \<or> js_get t ''conferenceName'' = JStr ''Western''" if mem: "t \<in> set ?ts" for t
  proof -
    obtain c where "c \<in> set VALID_CONFERENCES" and "js_get t ''conferenceName'' = JStr c"
      using names [OF mem] by blast
    then show ?thesis by (auto simp: VALID_CONFERENCES_def)
  qed
  have "\<forall>t \<in> set ?ts. js_get t ''divisionName'' = JStr ''Atlantic''
          \<or> js_get t ''divisionName'' = JStr ''Metropolitan''
          \<or> js_get t ''divisionName'' = JStr ''Central''
          \<or> js_get t ''divisionName'' = JStr ''Pacific''"
    using div4 by blast
  then have "teamsInDivision raw ''Atlantic'' + teamsInDivision raw ''Metropolitan''
       + teamsInDivision raw ''Central'' + teamsInDivision raw ''Pacific'' = length ?ts"
    unfolding teamsInDivision_def by (rule count_partition4) simp
  moreover have "\<forall>t \<in> set ?ts. js_get t ''conferenceName'' = JStr ''Eastern''
          \<or> js_get t ''conferenceName'' = JStr ''Western''"
    using conf2 by blast
  then have "teamsInConference raw ''Eastern'' + teamsInConference raw ''Western'' = length ?ts"
    unfolding teamsInConference_def by (rule count_partition2) simp
  ultimately have sums: "teamsInDivision raw ''Atlantic'' + teamsInDivision raw ''Metropolitan''
       + teamsInDivision raw ''Central'' + teamsInDivision raw ''Pacific'' = 32
     \<and> teamsInConference raw ''Eastern'' + teamsInConference raw ''Western'' = 32"
    by (simp only: len)
  have all: "\<forall>team \<in> set ?ts.
         (\<exists>d \<in> set VALID_DIVISIONS. js_get team ''divisionName'' = JStr d)
         \<and> (\<exists>c \<in> set VALID_CONFERENCES. js_get team ''conferenceName'' = JStr c)"
    using names by blast
  show ?thesis
    using len all sums by blast
qed

lemma uniformSnapshot_accepted:
  "validateNHLApiResponse strictCoercion uniformSnapshot = Inr \<lparr> isValid = True, errors = [] \<rparr>"
  by code_simp

theorem validateNHLApiResponse_accepted_witness:
  "validateNHLApiResponse strictCoercion uniformSnapshot = Inr \<lparr> isValid = True, errors = [] \<rparr>
   \<and> isValid \<lparr> isValid = True, errors = [] \<rparr>
   \<and> length (snapshotTeams uniformSnapshot) = 32
   \<and> teamsInConference uniformSnapshot ''Eastern'' + teamsInConference uniformSnapshot ''Western''
       = 32"
  using validateNHLApiResponse_accepted [OF uniformSnapshot_accepted] uniformSnapshot_accepted
  by simp

theorem validateNHLApiResponse_distribution_counterexample:
  "validateNHLApiResponse strictCoercion uniformSnapshot = Inr \<lparr> isValid = True, errors = [] \<rparr>
   \<and> length (snapshotTeams uniformSnapshot) = 32
   \<and> teamsInDivision uniformSnapshot ''Atlantic'' = 32
   \<and> teamsInDivision uniformSnapshot ''Metropolitan'' = 0
   \<and> teamsInDivision uniformSnapshot ''Central'' = 0
   \<and> teamsInDivision uniformSnapshot ''Pacific'' = 0
   \<and> teamsInConference uniformSnapshot ''Eastern'' = 32
   \<and> teamsInConference uniformSnapshot ''Western'' = 0
   \<and> \<not> isValid (validateDivisionDistribution uniformResponse)
   \<and> \<not> isValid (validateConferenceDistribution uniformResponse)"
proof -
  have "length (snapshotTeams uniformSnapshot) = 32"
    and "teamsInDivision uniformSnapshot ''Atlantic'' = 32"
    and "teamsInDivision uniformSnapshot ''Metropolitan'' = 0"
    and "teamsInDivision uniformSnapshot ''Central'' = 0"
    and "teamsInDivision uniformSnapshot ''Pacific'' = 0"
    and "teamsInConference uniformSnapshot ''Eastern'' = 32"
    and "teamsInConference uniformSnapshot ''Western'' = 0"
    by code_simp+
  then show ?thesis
    using uniformSnapshot_accepted uniformResponse_rejected by simp
qed

section \<open>The check of the nested names\<close>









lemma emptyNamedSnapshot_result:
  "validateNHLApiResponse strictCoercion emptyNamedSnapshot
   = Inr \<lparr> isValid = False,
           errors = [\<lparr> field = ''standings.length'', message = UnexpectedTeamCount \<rparr>,
                     \<lparr> field = ''standings[0].teamName.default'', message = NoDefaultString \<rparr>] \<rparr>"
  by code_simp



section \<open>Properties of the assembled document\<close>


















section \<open>Properties of the acquirer\<close>

lemma fetchLoop_past: "attempt > MAX_RETRIES \<Longrightarrow> fetchLoop env attempt w le = (Inl le, w)"
  by (simp add: fetchLoop.simps)

lemma fetchLoop_success:
  "attempt \<le> MAX_RETRIES \<Longrightarrow> tryFetch env attempt = Inr d
   \<Longrightarrow> fetchLoop env attempt w le = (Inr d, w\<lparr> fs := cacheResponse env d (fs w) \<rparr>)"
  by (simp add: fetchLoop.simps)

lemma fetchLoop_failure:
  "attempt \<le> MAX_RETRIES \<Longrightarrow> tryFetch env attempt = Inl msg
   \<Longrightarrow> fetchLoop env attempt w le
       = fetchLoop env (Suc attempt)
           (if attempt < MAX_RETRIES
            then w\<lparr> waited := waited w @ [INITIAL_RETRY_DELAY * 2 ^ (attempt - 1)] \<rparr>
            else w)
           (Some msg)"
  by (subst fetchLoop.simps) simp

text \<open>When the three attempts fail the loop ends with the last message.\<close>

lemma fetchLoop_all_fail:
  assumes "tryFetch env 1 = Inl m1" and "tryFetch env 2 = Inl m2" and "tryFetch env 3 = Inl m3"
  shows "fetchLoop env 1 w None = (Inl (Some m3), w\<lparr> waited := waited w @ [1000, 2000] \<rparr>)"
proof -
  have t1: "tryFetch env (Suc 0) = Inl m1"
    and t2: "tryFetch env (Suc (Suc 0)) = Inl m2"
    and t3: "tryFetch env (Suc (Suc (Suc 0))) = Inl m3"
    using assms by (simp_all add: numeral_2_eq_2 numeral_3_eq_3)
  have "fetchLoop env (Suc 0) w None
        = fetchLoop env (Suc (Suc 0)) (w\<lparr> waited := waited w @ [1000] \<rparr>) (Some m1)"
    using fetchLoop_failure [of "Suc 0" env m1 w None] t1
    by (simp add: MAX_RETRIES_def INITIAL_RETRY_DELAY_def)
  also have "\<dots> = fetchLoop env (Suc (Suc (Suc 0)))
                       (w\<lparr> waited := waited w @ [1000, 2000] \<rparr>) (Some m2)"
    using fetchLoop_failure [of "Suc (Suc 0)" env m2 "w\<lparr> waited := waited w @ [1000] \<rparr>" "Some m1"] t2
    by (simp add: MAX_RETRIES_def INITIAL_RETRY_DELAY_def)
  also have "\<dots> = fetchLoop env (Suc (Suc (Suc (Suc 0))))
                       (w\<lparr> waited := waited w @ [1000, 2000] \<rparr>) (Some m3)"
    using fetchLoop_failure [of "Suc (Suc (Suc 0))" env m3
            "w\<lparr> waited := waited w @ [1000, 2000] \<rparr>" "Some m2"] t3
    by (simp add: MAX_RETRIES_def INITIAL_RETRY_DELAY_def)
  also have "\<dots> = (Inl (Some m3), w\<lparr> waited := waited w @ [1000, 2000] \<rparr>)"
    by (rule fetchLoop_past) (simp add: MAX_RETRIES_def)
  finally show ?thesis by simp
qed

text \<open>When an attempt succeeds the loop returns a payload.\<close>

lemma fetchLoop_Inr:
  assumes "\<exists>d. tryFetch env 1 = Inr d \<or> tryFetch env 2 = Inr d \<or> tryFetch env 3 = Inr d"
  shows "\<exists>d w1. fetchLoop env 1 w None = (Inr d, w1)"
proof -
  have some: "\<exists>d. tryFetch env (Suc 0) = Inr d \<or> tryFetch env (Suc (Suc 0)) = Inr d
                \<or> tryFetch env (Suc (Suc (Suc 0))) = Inr d"
    using assms by (simp add: numeral_2_eq_2 numeral_3_eq_3)
  have "\<exists>d w1. fetchLoop env (Suc 0) w None = (Inr d, w1)"
  proof (cases "tryFetch env (Suc 0)")
    case (Inr d)
    then show ?thesis
      using fetchLoop_success [of "Suc 0" env d w None] by (simp add: MAX_RETRIES_def)
  next
    case m1: (Inl m1)
    have one: "fetchLoop env (Suc 0) w None
               = fetchLoop env (Suc (Suc 0)) (w\<lparr> waited := waited w @ [1000] \<rparr>) (Some m1)"
      using fetchLoop_failure [of "Suc 0" env m1 w None] m1
      by (simp add: MAX_RETRIES_def INITIAL_RETRY_DELAY_def)
    show ?thesis
    proof (cases "tryFetch env (Suc (Suc 0))")
      case (Inr d)
      then show ?thesis
        using one fetchLoop_success [of "Suc (Suc 0)" env d] by (simp add: MAX_RETRIES_def)
    next
      case m2: (Inl m2)
      have two: "fetchLoop env (Suc (Suc 0)) (w\<lparr> waited := waited w @ [1000] \<rparr>) (Some m1)
                 = fetchLoop env (Suc (Suc (Suc 0)))
                     (w\<lparr> waited := waited w @ [1000, 2000] \<rparr>) (Some m2)"
        using fetchLoop_failure [of "Suc (Suc 0)" env m2] m2
        by (simp add: MAX_RETRIES_def INITIAL_RETRY_DELAY_def)
      show ?thesis
      proof (cases "tryFetch env (Suc (Suc (Suc 0)))")
        case (Inr d)
        then show ?thesis
          using one two fetchLoop_success [of "Suc (Suc (Suc 0))" env d]
          by (simp add: MAX_RETRIES_def)
      next
        case m3: (Inl m3)
        then show ?thesis using some m1 m2 by simp
      qed
    qed
  qed
  then show ?thesis by simp
qed

lemma show_nat_3: "show_nat 3 = ''3''"
  by (simp add: show_nat.simps)

lemma passesValidation_shape:
  assumes "passesValidation co d"
  shows "js_truthy d \<and> js_truthy (js_get d ''standings'')"
proof -
  obtain r where r: "validateNHLApiResponse co d = Inr r" and v: "isValid r"
    using assms by (auto simp: passesValidation_def split: sum.splits)
  obtain teams where st: "js_get d ''standings'' = JArr teams"
    using validateNHLApiResponse_not_array [OF _ r] v by blast
  then obtain kvs where "d = JObj kvs"
    by (cases d) simp_all
  then show ?thesis using st by simp
qed

lemma loadCachedData_valid:
  assumes "files fsys CACHE_FILE = Some (JsonText cacheData)"
    and "\<not> readFails env"
    and "passesValidation (coercion env) (js_get cacheData ''data'')"
  shows "loadCachedData env fsys
         = Inr \<lparr> data = js_get cacheData ''data'', isStale = True,
                 cacheTimestamp = js_get cacheData ''timestamp'' \<rparr>"
proof -
  have ex: "existsSync fsys CACHE_FILE"
    using assms(1) by (simp add: existsSync_def)
  have sh: "js_truthy (js_get cacheData ''data'')"
    "js_truthy (js_get (js_get cacheData ''data'') ''standings'')"
    using passesValidation_shape [OF assms(3)] by simp_all
  have nn: "\<not> js_nullish cacheData"
    using sh(1) by (cases cacheData) (simp_all add: js_nullish_def)
  obtain r where r: "validateNHLApiResponse (coercion env) (js_get cacheData ''data'') = Inr r"
    and v: "isValid r"
    using assms(3) by (auto simp: passesValidation_def split: sum.splits)
  show ?thesis
    unfolding loadCachedData_def using ex assms(1,2) sh nn r v by simp
qed

lemma loadCachedData_absent:
  "\<not> existsSync fsys CACHE_FILE
   \<Longrightarrow> loadCachedData env fsys = Inl (Error ''No cached data available'')"
  by (simp add: loadCachedData_def)

lemma loadCachedData_invalid:
  assumes "files fsys CACHE_FILE = Some (JsonText cacheData)"
    and "\<not> passesValidation (coercion env) (js_get cacheData ''data'')"
  shows "\<exists>e. loadCachedData env fsys = Inl e"
proof (cases "validateNHLApiResponse (coercion env) (js_get cacheData ''data'')")
  case (Inl e)
  then show ?thesis
    unfolding loadCachedData_def using assms(1) by (simp add: existsSync_def)
next
  case (Inr r)
  then have "\<not> isValid r"
    using assms(2) by (simp add: passesValidation_def)
  then show ?thesis
    unfolding loadCachedData_def using assms(1) Inr by (simp add: existsSync_def)
qed

lemma fetchNHLData_all_fail:
  assumes "tryFetch env 1 = Inl m1" and "tryFetch env 2 = Inl m2" and "tryFetch env 3 = Inl m3"
  shows "fst (fetchNHLData env w)
         = (case loadCachedData env (fs w) of
              Inr cachedResult \<Rightarrow> Inr cachedResult
            | Inl cacheError \<Rightarrow>
                Inl (Error (''Failed to fetch NHL data after 3 attempts and no cached data available. Last error: '' @ m3)))"
  unfolding fetchNHLData_def fetchLoop_all_fail [OF assms]
  by (simp add: MAX_RETRIES_def show_nat_3 split: sum.splits)

lemma fetchNHLData_fresh:
  assumes "\<exists>d. tryFetch env 1 = Inr d \<or> tryFetch env 2 = Inr d \<or> tryFetch env 3 = Inr d"
  shows "\<exists>d w1. fetchNHLData env w
           = (Inr \<lparr> data = d, isStale = False, cacheTimestamp = JUndefined \<rparr>, w1)"
proof -
  obtain d w1 where "fetchLoop env 1 w None = (Inr d, w1)"
    using fetchLoop_Inr [OF assms] by blast
  then show ?thesis by (simp add: fetchNHLData_def)
qed

text \<open>
  Claim C6. \<open>fetchNHLData\<close> throws only if each of the three attempts failed and the
  cache could not be loaded. When the three attempts fail and the cache file holds an
  entry whose payload passes validation, the result is that payload with
  \<open>isStale = true\<close> and the timestamp of the entry. When they fail and the cache file
  is absent or its payload fails validation, the thrown error's message ends with the
  message of the last failed attempt.
\<close>

theorem fetchNHLData_spec:
  "(fetchNHLData env w = (Inl e, w1) \<longrightarrow>
      (\<exists>f1 f2 f3. tryFetch env 1 = Inl f1 \<and> tryFetch env 2 = Inl f2 \<and> tryFetch env 3 = Inl f3)
      \<and> (\<exists>cacheError. loadCachedData env (fs w) = Inl cacheError))
   \<and> (tryFetch env 1 = Inl m1 \<and> tryFetch env 2 = Inl m2 \<and> tryFetch env 3 = Inl m3
       \<and> files (fs w) CACHE_FILE = Some (JsonText cacheData) \<and> \<not> readFails env
       \<and> passesValidation (coercion env) (js_get cacheData ''data'') \<longrightarrow>
      fst (fetchNHLData env w)
        = Inr \<lparr> data = js_get cacheData ''data'', isStale = True,
                cacheTimestamp = js_get cacheData ''timestamp'' \<rparr>)
   \<and> (tryFetch env 1 = Inl m1 \<and> tryFetch env 2 = Inl m2 \<and> tryFetch env 3 = Inl m3
       \<and> (\<not> existsSync (fs w) CACHE_FILE
          \<or> files (fs w) CACHE_FILE = Some (JsonText cacheData)
            \<and> \<not> passesValidation (coercion env) (js_get cacheData ''data'')) \<longrightarrow>
      fst (fetchNHLData env w)
        = Inl (Error (''Failed to fetch NHL data after 3 attempts and no cached data available. Last error: '' @ m3)))"
proof (intro conjI impI)
  assume thrown: "fetchNHLData env w = (Inl e, w1)"
  have none: "\<not> (\<exists>d. tryFetch env 1 = Inr d \<or> tryFetch env 2 = Inr d \<or> tryFetch env 3 = Inr d)"
  proof
    assume "\<exists>d. tryFetch env 1 = Inr d \<or> tryFetch env 2 = Inr d \<or> tryFetch env 3 = Inr d"
    then obtain d w2 where
      "fetchNHLData env w = (Inr \<lparr> data = d, isStale = False, cacheTimestamp = JUndefined \<rparr>, w2)"
      using fetchNHLData_fresh by blast
    then show False using thrown by simp
  qed
  obtain f1 where f1: "tryFetch env 1 = Inl f1"
    using none by (cases "tryFetch env 1") auto
  obtain f2 where f2: "tryFetch env 2 = Inl f2"
    using none by (cases "tryFetch env 2") auto
  obtain f3 where f3: "tryFetch env 3 = Inl f3"
    using none by (cases "tryFetch env 3") auto
  show "\<exists>f1 f2 f3. tryFetch env 1 = Inl f1 \<and> tryFetch env 2 = Inl f2 \<and> tryFetch env 3 = Inl f3"
    using f1 f2 f3 by blast
  have "fst (fetchNHLData env w) = Inl e"
    using thrown by simp
  then show "\<exists>cacheError. loadCachedData env (fs w) = Inl cacheError"
    unfolding fetchNHLData_all_fail [OF f1 f2 f3]
    by (cases "loadCachedData env (fs w)") auto
next
  assume h: "tryFetch env 1 = Inl m1 \<and> tryFetch env 2 = Inl m2 \<and> tryFetch env 3 = Inl m3
       \<and> files (fs w) CACHE_FILE = Some (JsonText cacheData) \<and> \<not> readFails env
       \<and> passesValidation (coercion env) (js_get cacheData ''data'')"
  then have "loadCachedData env (fs w)
         = Inr \<lparr> data = js_get cacheData ''data'', isStale = True,
                 cacheTimestamp = js_get cacheData ''timestamp'' \<rparr>"
    by (intro loadCachedData_valid) simp_all
  then show "fst (fetchNHLData env w)
        = Inr \<lparr> data = js_get cacheData ''data'', isStale = True,
                cacheTimestamp = js_get cacheData ''timestamp'' \<rparr>"
    using h by (simp add: fetchNHLData_all_fail [of env m1 m2 m3])
next
  assume h: "tryFetch env 1 = Inl m1 \<and> tryFetch env 2 = Inl m2 \<and> tryFetch env 3 = Inl m3
       \<and> (\<not> existsSync (fs w) CACHE_FILE
          \<or> files (fs w) CACHE_FILE = Some (JsonText cacheData)
            \<and> \<not> passesValidation (coercion env) (js_get cacheData ''data''))"
  then have "\<exists>ce. loadCachedData env (fs w) = Inl ce"
    using loadCachedData_absent [of "fs w" env] loadCachedData_invalid [of "fs w" cacheData env]
    by blast
  then show "fst (fetchNHLData env w)
        = Inl (Error (''Failed to fetch NHL data after 3 attempts and no cached data available. Last error: '' @ m3))"
    using h by (auto simp: fetchNHLData_all_fail [of env m1 m2 m3])
qed

lemma cachedEntry_passes:
  "passesValidation (coercion quietEnv) (js_get cachedEntry ''data'')"
  by code_simp

theorem fetchNHLData_spec_witness:
  "tryFetch quietEnv 1 = Inl ''fetch failed''
   \<and> tryFetch quietEnv 2 = Inl ''fetch failed''
   \<and> tryFetch quietEnv 3 = Inl ''fetch failed''
   \<and> files (fs \<lparr> fs = cachedFs, waited = [] \<rparr>) CACHE_FILE = Some (JsonText cachedEntry)
   \<and> \<not> readFails quietEnv
   \<and> passesValidation (coercion quietEnv) (js_get cachedEntry ''data'')
   \<and> fst (fetchNHLData quietEnv \<lparr> fs = cachedFs, waited = [] \<rparr>)
       = Inr \<lparr> data = uniformSnapshot, isStale = True,
               cacheTimestamp = JStr ''2026-01-01T08:00:00.000Z'' \<rparr>
   \<and> \<not> existsSync (fs \<lparr> fs = emptyFs, waited = [] \<rparr>) CACHE_FILE
   \<and> fst (fetchNHLData quietEnv \<lparr> fs = emptyFs, waited = [] \<rparr>)
       = Inl (Error (''Failed to fetch NHL data after 3 attempts and no cached data available. Last error: '' @ ''fetch failed''))"
proof -
  have t: "tryFetch quietEnv 1 = Inl ''fetch failed''"
    "tryFetch quietEnv 2 = Inl ''fetch failed''"
    "tryFetch quietEnv 3 = Inl ''fetch failed''"
    by (simp_all add: tryFetch_def quietEnv_def networkDown_def)
  have f: "files (fs \<lparr> fs = cachedFs, waited = [] \<rparr>) CACHE_FILE = Some (JsonText cachedEntry)"
    by (simp add: cachedFs_def)
  have r: "\<not> readFails quietEnv"
    by (simp add: quietEnv_def)
  have g: "js_get cachedEntry ''data'' = uniformSnapshot"
    "js_get cachedEntry ''timestamp'' = JStr ''2026-01-01T08:00:00.000Z''"
    by (simp_all add: cachedEntry_def)
  have x: "\<not> existsSync (fs \<lparr> fs = emptyFs, waited = [] \<rparr>) CACHE_FILE"
    by (simp add: existsSync_def emptyFs_def)
  have stale: "fst (fetchNHLData quietEnv \<lparr> fs = cachedFs, waited = [] \<rparr>)
       = Inr \<lparr> data = uniformSnapshot, isStale = True,
               cacheTimestamp = JStr ''2026-01-01T08:00:00.000Z'' \<rparr>"
    using fetchNHLData_spec [where env = quietEnv and w = "\<lparr> fs = cachedFs, waited = [] \<rparr>"
            and ?m1.0 = "''fetch failed''" and ?m2.0 = "''fetch failed''"
            and ?m3.0 = "''fetch failed''" and cacheData = cachedEntry]
          t f r cachedEntry_passes
    by (simp only: g simp_thms)
  have fatal: "fst (fetchNHLData quietEnv \<lparr> fs = emptyFs, waited = [] \<rparr>)
       = Inl (Error (''Failed to fetch NHL data after 3 attempts and no cached data available. Last error: '' @ ''fetch failed''))"
    using fetchNHLData_spec [where env = quietEnv and w = "\<lparr> fs = emptyFs, waited = [] \<rparr>"
            and ?m1.0 = "''fetch failed''" and ?m2.0 = "''fetch failed''"
            and ?m3.0 = "''fetch failed''" and cacheData = cachedEntry]
          t x
    by (simp only: simp_thms)
  show ?thesis
    using t f r cachedEntry_passes stale x fatal by (simp only: simp_thms)
qed

section \<open>Properties of the cache write\<close>

lemma cacheResponse_cases:
  "cacheResponse env d fsys =
     (if \<not> existsSync fsys CACHE_DIR \<and> mkdirFails env then fsys
      else snd (writeFileSync (writeFault env)
                  (if existsSync fsys CACHE_DIR then fsys else mkdirSync fsys CACHE_DIR)
                  CACHE_FILE (JObj [(''data'', d), (''timestamp'', JStr (now env))])))"
  by (simp add: cacheResponse_def Let_def)

lemma files_mkdirSync: "files (mkdirSync fsys path) = files fsys"
  by (simp add: mkdirSync_def)

lemma files_writeFileSync:
  "files (snd (writeFileSync fault fsys path v))
   = (case fault of
        NoFault \<Rightarrow> (files fsys)(path \<mapsto> JsonText v)
      | FailBeforeOpen \<Rightarrow> files fsys
      | FailAfterOpen \<Rightarrow> (files fsys)(path \<mapsto> Unparseable))"
  by (cases fault) (simp_all add: writeFileSync_def)

text \<open>The first attempt that succeeds decides the result, and its payload is cached.\<close>

lemma fetchLoop_fresh:
  assumes "tryFetch env 1 = Inr d
           \<or> tryFetch env 1 = Inl m1 \<and> tryFetch env 2 = Inr d
           \<or> tryFetch env 1 = Inl m1 \<and> tryFetch env 2 = Inl m2 \<and> tryFetch env 3 = Inr d"
  shows "\<exists>w1. fetchLoop env 1 w None = (Inr d, w1) \<and> fs w1 = cacheResponse env d (fs w)"
proof -
  have cases: "tryFetch env (Suc 0) = Inr d
           \<or> tryFetch env (Suc 0) = Inl m1 \<and> tryFetch env (Suc (Suc 0)) = Inr d
           \<or> tryFetch env (Suc 0) = Inl m1 \<and> tryFetch env (Suc (Suc 0)) = Inl m2
             \<and> tryFetch env (Suc (Suc (Suc 0))) = Inr d"
    using assms by (simp add: numeral_2_eq_2 numeral_3_eq_3)
  have "\<exists>w1. fetchLoop env (Suc 0) w None = (Inr d, w1) \<and> fs w1 = cacheResponse env d (fs w)"
    using cases
  proof (elim disjE conjE)
    assume "tryFetch env (Suc 0) = Inr d"
    then show ?thesis
      using fetchLoop_success [of "Suc 0" env d w None] by (simp add: MAX_RETRIES_def)
  next
    assume m1: "tryFetch env (Suc 0) = Inl m1" and d: "tryFetch env (Suc (Suc 0)) = Inr d"
    have one: "fetchLoop env (Suc 0) w None
               = fetchLoop env (Suc (Suc 0)) (w\<lparr> waited := waited w @ [1000] \<rparr>) (Some m1)"
      using fetchLoop_failure [of "Suc 0" env m1 w None] m1
      by (simp add: MAX_RETRIES_def INITIAL_RETRY_DELAY_def)
    show ?thesis
      using one d fetchLoop_success [of "Suc (Suc 0)" env d "w\<lparr> waited := waited w @ [1000] \<rparr>" "Some m1"]
      by (simp add: MAX_RETRIES_def)
  next
    assume m1: "tryFetch env (Suc 0) = Inl m1" and m2: "tryFetch env (Suc (Suc 0)) = Inl m2"
      and d: "tryFetch env (Suc (Suc (Suc 0))) = Inr d"
    have one: "fetchLoop env (Suc 0) w None
               = fetchLoop env (Suc (Suc 0)) (w\<lparr> waited := waited w @ [1000] \<rparr>) (Some m1)"
      using fetchLoop_failure [of "Suc 0" env m1 w None] m1
      by (simp add: MAX_RETRIES_def INITIAL_RETRY_DELAY_def)
    have two: "fetchLoop env (Suc (Suc 0)) (w\<lparr> waited := waited w @ [1000] \<rparr>) (Some m1)
                 = fetchLoop env (Suc (Suc (Suc 0)))
                     (w\<lparr> waited := waited w @ [1000, 2000] \<rparr>) (Some m2)"
      using fetchLoop_failure [of "Suc (Suc 0)" env m2] m2
      by (simp add: MAX_RETRIES_def INITIAL_RETRY_DELAY_def)
    show ?thesis
      using one two d
        fetchLoop_success [of "Suc (Suc (Suc 0))" env d "w\<lparr> waited := waited w @ [1000, 2000] \<rparr>" "Some m2"]
      by (simp add: MAX_RETRIES_def)
  qed
  then show ?thesis by simp
qed

lemma fetchNHLData_first_success:
  assumes "tryFetch env 1 = Inr d
           \<or> tryFetch env 1 = Inl m1 \<and> tryFetch env 2 = Inr d
           \<or> tryFetch env 1 = Inl m1 \<and> tryFetch env 2 = Inl m2 \<and> tryFetch env 3 = Inr d"
  shows "fst (fetchNHLData env w)
           = Inr \<lparr> data = d, isStale = False, cacheTimestamp = JUndefined \<rparr>"
    and "fs (snd (fetchNHLData env w)) = cacheResponse env d (fs w)"
proof -
  obtain w1 where "fetchLoop env 1 w None = (Inr d, w1)" "fs w1 = cacheResponse env d (fs w)"
    using fetchLoop_fresh [OF assms] by blast
  then show "fst (fetchNHLData env w)
           = Inr \<lparr> data = d, isStale = False, cacheTimestamp = JUndefined \<rparr>"
    and "fs (snd (fetchNHLData env w)) = cacheResponse env d (fs w)"
    by (simp_all add: fetchNHLData_def)
qed

lemma recovering_1: "tryFetch recoveringEnv 1 = Inl ''fetch failed''"
  by (simp add: tryFetch_def recoveringEnv_def recoveringNetwork_def)

lemma recovering_2: "tryFetch recoveringEnv 2 = Inr uniformSnapshot"
proof -
  have "coercion recoveringEnv = strictCoercion"
    by (simp add: recoveringEnv_def fullDiskEnv_def quietEnv_def)
  then show ?thesis
    using uniformSnapshot_accepted
    by (simp add: tryFetch_def recoveringEnv_def recoveringNetwork_def)
qed

text \<open>
  Claim C8, as amended. \<open>cacheResponse\<close> writes the entry straight into the cache file
  with one \<open>writeFileSync\<close>: no other file is created or changed (there is no temporary
  file and no rename). A write without a fault leaves the entry \<open>{data, timestamp}\<close>
  in the cache file; a fault before the file is opened (or a failing \<open>mkdir\<close>) leaves
  every file as it was; a fault after the file was opened leaves the cache file with a
  text that does not parse, whatever it held before. No fault is propagated: when an
  attempt of \<open>fetchNHLData\<close> succeeds (the first, the second after one failure, or the
  third after two), the run returns the payload of that attempt as fresh data under
  every fault, and the file system it leaves is the one \<open>cacheResponse\<close> left.
\<close>

theorem cacheResponse_spec:
  "(path \<noteq> CACHE_FILE \<longrightarrow> files (cacheResponse env d fsys) path = files fsys path)
   \<and> ((existsSync fsys CACHE_DIR \<or> \<not> mkdirFails env) \<and> writeFault env = NoFault \<longrightarrow>
        files (cacheResponse env d fsys) CACHE_FILE
          = Some (JsonText (JObj [(''data'', d), (''timestamp'', JStr (now env))])))
   \<and> (\<not> existsSync fsys CACHE_DIR \<and> mkdirFails env \<or> writeFault env = FailBeforeOpen \<longrightarrow>
        files (cacheResponse env d fsys) = files fsys)
   \<and> ((existsSync fsys CACHE_DIR \<or> \<not> mkdirFails env) \<and> writeFault env = FailAfterOpen \<longrightarrow>
        files (cacheResponse env d fsys) CACHE_FILE = Some Unparseable)
   \<and> (tryFetch env 1 = Inr d
        \<or> tryFetch env 1 = Inl m1 \<and> tryFetch env 2 = Inr d
        \<or> tryFetch env 1 = Inl m1 \<and> tryFetch env 2 = Inl m2 \<and> tryFetch env 3 = Inr d \<longrightarrow>
        fst (fetchNHLData env w)
          = Inr \<lparr> data = d, isStale = False, cacheTimestamp = JUndefined \<rparr>
        \<and> fs (snd (fetchNHLData env w)) = cacheResponse env d (fs w))"
proof (intro conjI impI)
  assume "path \<noteq> CACHE_FILE"
  then show "files (cacheResponse env d fsys) path = files fsys path"
    by (cases "writeFault env")
       (simp_all add: cacheResponse_cases files_writeFileSync files_mkdirSync)
next
  assume "(existsSync fsys CACHE_DIR \<or> \<not> mkdirFails env) \<and> writeFault env = NoFault"
  then show "files (cacheResponse env d fsys) CACHE_FILE
          = Some (JsonText (JObj [(''data'', d), (''timestamp'', JStr (now env))]))"
    by (auto simp: cacheResponse_cases files_writeFileSync files_mkdirSync)
next
  assume "\<not> existsSync fsys CACHE_DIR \<and> mkdirFails env \<or> writeFault env = FailBeforeOpen"
  then show "files (cacheResponse env d fsys) = files fsys"
    by (auto simp: cacheResponse_cases files_writeFileSync files_mkdirSync)
next
  assume "(existsSync fsys CACHE_DIR \<or> \<not> mkdirFails env) \<and> writeFault env = FailAfterOpen"
  then show "files (cacheResponse env d fsys) CACHE_FILE = Some Unparseable"
    by (auto simp: cacheResponse_cases files_writeFileSync files_mkdirSync)
next
  assume h: "tryFetch env 1 = Inr d
        \<or> tryFetch env 1 = Inl m1 \<and> tryFetch env 2 = Inr d
        \<or> tryFetch env 1 = Inl m1 \<and> tryFetch env 2 = Inl m2 \<and> tryFetch env 3 = Inr d"
  show "fst (fetchNHLData env w)
          = Inr \<lparr> data = d, isStale = False, cacheTimestamp = JUndefined \<rparr>"
    by (rule fetchNHLData_first_success(1) [OF h])
next
  assume h: "tryFetch env 1 = Inr d
        \<or> tryFetch env 1 = Inl m1 \<and> tryFetch env 2 = Inr d
        \<or> tryFetch env 1 = Inl m1 \<and> tryFetch env 2 = Inl m2 \<and> tryFetch env 3 = Inr d"
  show "fs (snd (fetchNHLData env w)) = cacheResponse env d (fs w)"
    by (rule fetchNHLData_first_success(2) [OF h])
qed

theorem cacheResponse_spec_witness:
  "(''.cache/other.json'' \<noteq> CACHE_FILE)
   \<and> files (cacheResponse quietEnv uniformSnapshot emptyFs) ''.cache/other.json''
       = files emptyFs ''.cache/other.json''
   \<and> (existsSync emptyFs CACHE_DIR \<or> \<not> mkdirFails quietEnv)
   \<and> writeFault quietEnv = NoFault
   \<and> files (cacheResponse quietEnv uniformSnapshot emptyFs) CACHE_FILE
       = Some (JsonText (JObj [(''data'', uniformSnapshot),
                               (''timestamp'', JStr (now quietEnv))]))
   \<and> (existsSync cachedFs CACHE_DIR \<or> \<not> mkdirFails fullDiskEnv)
   \<and> writeFault fullDiskEnv = FailAfterOpen
   \<and> files (cacheResponse fullDiskEnv uniformSnapshot cachedFs) CACHE_FILE = Some Unparseable
   \<and> tryFetch recoveringEnv 1 = Inl ''fetch failed''
   \<and> tryFetch recoveringEnv 2 = Inr uniformSnapshot
   \<and> fst (fetchNHLData recoveringEnv \<lparr> fs = cachedFs, waited = [] \<rparr>)
       = Inr \<lparr> data = uniformSnapshot, isStale = False, cacheTimestamp = JUndefined \<rparr>
   \<and> fs (snd (fetchNHLData recoveringEnv \<lparr> fs = cachedFs, waited = [] \<rparr>))
       = cacheResponse recoveringEnv uniformSnapshot cachedFs"
proof -
  have a: "''.cache/other.json'' \<noteq> CACHE_FILE"
    by (simp add: CACHE_FILE_def)
  have b: "(existsSync emptyFs CACHE_DIR \<or> \<not> mkdirFails quietEnv) \<and> writeFault quietEnv = NoFault"
    by (simp add: quietEnv_def)
  have c: "(existsSync cachedFs CACHE_DIR \<or> \<not> mkdirFails fullDiskEnv)
           \<and> writeFault fullDiskEnv = FailAfterOpen"
    by (simp add: fullDiskEnv_def quietEnv_def)
  have d: "tryFetch recoveringEnv 1 = Inl ''fetch failed''
           \<and> tryFetch recoveringEnv 2 = Inr uniformSnapshot"
    using recovering_1 recovering_2 by simp
  have e: "fs \<lparr> fs = cachedFs, waited = [] \<rparr> = cachedFs"
    by simp
  show ?thesis
    using a b c d
      cacheResponse_spec [where env = quietEnv and d = uniformSnapshot and fsys = emptyFs
        and path = "''.cache/other.json''"]
      cacheResponse_spec [where env = fullDiskEnv and d = uniformSnapshot and fsys = cachedFs
        and path = "''.cache/other.json''"]
      cacheResponse_spec [of _ recoveringEnv uniformSnapshot _ "''fetch failed''" _
        "\<lparr> fs = cachedFs, waited = [] \<rparr>"]
    unfolding e
    by (simp only: simp_thms)
qed

lemma cachedFs_loads:
  "loadCachedData quietEnv cachedFs
   = Inr \<lparr> data = uniformSnapshot, isStale = True,
           cacheTimestamp = JStr ''2026-01-01T08:00:00.000Z'' \<rparr>"
proof -
  have "files cachedFs CACHE_FILE = Some (JsonText cachedEntry)"
    by (simp add: cachedFs_def)
  moreover have "\<not> readFails quietEnv"
    by (simp add: quietEnv_def)
  ultimately show ?thesis
    using loadCachedData_valid [OF _ _ cachedEntry_passes, of cachedFs]
    by (simp add: cachedEntry_def)
qed

theorem cacheResponse_atomic_counterexample:
  "loadCachedData quietEnv cachedFs
     = Inr \<lparr> data = uniformSnapshot, isStale = True,
             cacheTimestamp = JStr ''2026-01-01T08:00:00.000Z'' \<rparr>
   \<and> files (cacheResponse fullDiskEnv uniformSnapshot cachedFs) CACHE_FILE = Some Unparseable
   \<and> loadCachedData quietEnv (cacheResponse fullDiskEnv uniformSnapshot cachedFs)
     = Inl (SyntaxError ''Unexpected end of JSON input'')
   \<and> dom (files (cacheResponse quietEnv uniformSnapshot emptyFs)) = {CACHE_FILE}"
proof -
  have ex: "existsSync cachedFs CACHE_DIR"
    by (simp add: existsSync_def cachedFs_def)
  have wf: "writeFault fullDiskEnv = FailAfterOpen"
    by (simp add: fullDiskEnv_def quietEnv_def)
  have broken: "files (cacheResponse fullDiskEnv uniformSnapshot cachedFs) CACHE_FILE
                = Some Unparseable"
    using ex wf by (simp add: cacheResponse_cases files_writeFileSync)
  then have "existsSync (cacheResponse fullDiskEnv uniformSnapshot cachedFs) CACHE_FILE"
    by (simp add: existsSync_def)
  then have load: "loadCachedData quietEnv (cacheResponse fullDiskEnv uniformSnapshot cachedFs)
     = Inl (SyntaxError ''Unexpected end of JSON input'')"
    using broken by (simp add: loadCachedData_def quietEnv_def)
  have "files (cacheResponse quietEnv uniformSnapshot emptyFs)
        = [CACHE_FILE \<mapsto> JsonText (JObj [(''data'', uniformSnapshot),
                                            (''timestamp'', JStr (now quietEnv))])]"
    by (simp add: cacheResponse_cases files_writeFileSync files_mkdirSync quietEnv_def
          emptyFs_def existsSync_def)
  then have only: "dom (files (cacheResponse quietEnv uniformSnapshot emptyFs)) = {CACHE_FILE}"
    by simp
  show ?thesis
    using cachedFs_loads broken load only by (simp only: simp_thms)
qed


end
